theory Spec2Isabelle
  imports Main "HOL-Library.Multiset"
begin

section \<open>Data model\<close>

text \<open>
  The objects of \<^verbatim>\<open>src/src/github-issues-prs.ts\<close>. JavaScript strings are modelled
  as \<^typ>\<open>string\<close>; a value that the code only tests for truthiness and that is either
  absent or a string is a \<^typ>\<open>string option\<close>, or a \<^typ>\<open>string\<close> whose empty value
  stands for every falsy value.
\<close>

text \<open>\<^verbatim>\<open>interface GitRemote\<close> (lines 11-16).\<close>

record GitRemote =
  url :: string
  owner :: string
  repo :: string
  username :: string

text \<open>
  The JSON objects of the GitHub client, reduced to the fields the code reads: a
  milestone (\<^verbatim>\<open>title\<close>, \<^verbatim>\<open>due_on\<close>) and a search result item (\<^verbatim>\<open>title\<close>,
  \<^verbatim>\<open>number\<close>, \<^verbatim>\<open>html_url\<close>, \<^verbatim>\<open>milestone\<close>, \<^verbatim>\<open>pull_request\<close>). Both carry a
  \<^verbatim>\<open>title\<close>, so both records extend one record with that field.
\<close>

record titled =
  title :: string

record milestone_json = titled +
  due_on :: "string option"

record item_json = titled +
  number :: nat
  html_url :: string
  milestone :: "milestone_json option"
  pull_request :: bool

text \<open>
  The tree items. \<^verbatim>\<open>class Milestone extends TreeItem\<close> and
  \<^verbatim>\<open>class Issue extends TreeItem\<close> (lines 18-31) become extensions of the record of
  the host's \<^verbatim>\<open>TreeItem\<close>, of which the code uses the label and the collapsible state.
  The two icon paths of an issue are the host's absolute paths of one file name below
  \<^verbatim>\<open>thirdparty/octicons/{light,dark}\<close>; the model keeps the file name.
\<close>

datatype TreeItemCollapsibleState = NoneState | Collapsed | Expanded

record TreeItem =
  label :: string
  collapsibleState :: TreeItemCollapsibleState

record Issue = TreeItem +
  item :: item_json
  iconPath :: string
  contextValue :: string

record Milestone = TreeItem +
  issues :: "Issue list"

text \<open>An element of the \<^verbatim>\<open>TreeItem[]\<close> that \<^verbatim>\<open>fetchChildren\<close> returns.\<close>

datatype node = Plain TreeItem | IssueNode Issue | MilestoneNode Milestone

text \<open>
  A thrown value. The code reads only \<^verbatim>\<open>err.code\<close> (line 136); the message tells the
  errors of the model apart.
\<close>

datatype error = Error (code: "nat option") (message: string)

definition newTreeItem :: "string \<Rightarrow> TreeItem" where
  "newTreeItem l = \<lparr>label = l, collapsibleState = NoneState\<rparr>"

definition newMilestone :: "string \<Rightarrow> Milestone" where
  "newMilestone l = \<lparr>label = l, collapsibleState = Expanded, issues = []\<rparr>"

definition newIssue :: "string \<Rightarrow> item_json \<Rightarrow> Issue" where
  "newIssue l it = \<lparr>label = l, collapsibleState = NoneState, item = it,
     iconPath = [], contextValue = []\<rparr>"

text \<open>The decimal digits of a number, as a template literal prints it.\<close>

fun decimal :: "nat \<Rightarrow> string" where
  "decimal n =
     (if n < 10 then [char_of (48 + n)]
      else decimal (n div 10) @ [char_of (48 + n mod 10)])"

declare decimal.simps [simp del]

section \<open>The tree builder (lines 143-165 of \<^verbatim>\<open>fetchChildren\<close>)\<close>

text \<open>
  The property names that every object literal inherits from \<^verbatim>\<open>Object.prototype\<close>.
  \<^verbatim>\<open>milestoneIndex\<close> is created as \<^verbatim>\<open>{}\<close> (line 147), so reading one of these keys
  from it finds the inherited value before any milestone was stored under it.
\<close>

definition objectPrototypeKeys :: "string list" where
  "objectPrototypeKeys =
     [''constructor'', ''__defineGetter__'', ''__defineSetter__'', ''hasOwnProperty'',
      ''__lookupGetter__'', ''__lookupSetter__'', ''isPrototypeOf'',
      ''propertyIsEnumerable'', ''toString'', ''valueOf'', ''__proto__'',
      ''toLocaleString'']"

text \<open>Line 151: \<^verbatim>\<open>m && m.title || 'No Milestone'\<close>.\<close>

definition milestoneLabel :: "Issue \<Rightarrow> string" where
  "milestoneLabel issue =
     (case milestone (item issue) of
        None \<Rightarrow> ''No Milestone''
      | Some m \<Rightarrow> if title m \<noteq> [] then title m else ''No Milestone'')"

text \<open>
  The state of the grouping loop (lines 147-159): \<^verbatim>\<open>milestoneIndex\<close> maps a label to
  the \<^verbatim>\<open>Milestone\<close> object stored under it, \<^verbatim>\<open>milestones\<close> lists the same objects. The
  objects are shared and mutated through either reference, so the index holds the
  position of the object in \<^verbatim>\<open>milestones\<close>.
\<close>

record grouping =
  milestoneIndex :: "string \<Rightarrow> nat option"
  milestones :: "Milestone list"

definition emptyGrouping :: grouping where
  "emptyGrouping = \<lparr>milestoneIndex = (\<lambda>_. None), milestones = []\<rparr>"

definition pushIssue :: "Issue \<Rightarrow> Milestone \<Rightarrow> Milestone" where
  "pushIssue issue m = m\<lparr>issues := issues m @ [issue]\<rparr>"

text \<open>
  One iteration of the loop. An own property wins; without one, an inherited property of
  \<^verbatim>\<open>Object.prototype\<close> is found, which is truthy and has no \<^verbatim>\<open>issues\<close>, so that
  \<^verbatim>\<open>milestone.issues.push\<close> throws a \<^verbatim>\<open>TypeError\<close>; otherwise the lookup is
  \<^verbatim>\<open>undefined\<close> and a new group is created.
\<close>

definition typeError :: error where
  "typeError = Error None ''TypeError: Cannot read property 'push' of undefined''"

definition groupIssue :: "grouping \<Rightarrow> Issue \<Rightarrow> error + grouping" where
  "groupIssue g issue =
     (let l = milestoneLabel issue in
      case milestoneIndex g l of
        Some i \<Rightarrow> Inr (g\<lparr>milestones := (milestones g)[i := pushIssue issue (milestones g ! i)]\<rparr>)
      | None \<Rightarrow>
          if l \<in> set objectPrototypeKeys then Inl typeError
          else Inr \<lparr>milestoneIndex = (milestoneIndex g)(l \<mapsto> length (milestones g)),
                    milestones = milestones g @ [pushIssue issue (newMilestone l)]\<rparr>)"

fun groupIssues :: "grouping \<Rightarrow> Issue list \<Rightarrow> error + grouping" where
  "groupIssues g [] = Inr g"
| "groupIssues g (issue # rest) =
     (case groupIssue g issue of Inl e \<Rightarrow> Inl e | Inr g' \<Rightarrow> groupIssues g' rest)"

text \<open>Lines 161-165: the single group \<^verbatim>\<open>No Milestone\<close> is returned as its issues.\<close>

definition flatten :: "Milestone list \<Rightarrow> node list" where
  "flatten ms =
     (if length ms = 1 \<and> label (ms ! 0) = ''No Milestone''
      then map IssueNode (issues (ms ! 0))
      else map MilestoneNode ms)"

text \<open>Lines 143-165, from the two lists the loop over the remotes has filled.\<close>

definition buildTree :: "Issue list \<Rightarrow> TreeItem list \<Rightarrow> error + node list" where
  "buildTree iss errs =
     (if iss = [] then
        Inr (if errs \<noteq> [] then map Plain errs else [Plain (newTreeItem ''No issues found'')])
      else
        case groupIssues emptyGrouping iss of
          Inl e \<Rightarrow> Inl e
        | Inr g \<Rightarrow> Inr (flatten (milestones g)))"

section \<open>The collaborators\<close>

text \<open>
  What the code calls and does not implement: the workspace root, the \<^verbatim>\<open>git remote -v\<close>
  subprocess (its standard output, or the rejection of \<^verbatim>\<open>exec\<close>), the credential
  helper \<^verbatim>\<open>fill\<close> (the user name of the data it returns, or no data), the two calls
  of the GitHub client with the parameters the code passes, and the two functions of the
  JavaScript runtime that order the milestones: the time value of a date string and
  \<^verbatim>\<open>String.prototype.localeCompare\<close>.
\<close>

record search_params =
  q :: string
  sort_param :: string
  order_param :: string
  per_page :: nat

record env =
  rootPath :: "string option"
  gitRemoteV :: "error + string"
  fill :: "string \<Rightarrow> string option"
  getMilestones :: "string \<Rightarrow> string \<Rightarrow> nat \<Rightarrow> error + milestone_json list"
  searchIssues :: "search_params \<Rightarrow> error + item_json list"
  dateTime :: "string \<Rightarrow> int"
  localeCompare :: "string \<Rightarrow> string \<Rightarrow> int"

section \<open>The milestone selector (\<^verbatim>\<open>getCurrentMilestones\<close>, lines 221-236)\<close>

text \<open>The truthiness of \<^verbatim>\<open>due_on\<close>: \<^verbatim>\<open>null\<close> and the empty string are falsy.\<close>

definition truthy :: "string option \<Rightarrow> bool" where
  "truthy d = (case d of None \<Rightarrow> False | Some s \<Rightarrow> s \<noteq> [])"

text \<open>
  Modelled from the spec: \<^verbatim>\<open>compareDateStrings\<close> of \<^verbatim>\<open>./utils\<close>, which is not among the
  sources. The spec describes it as the comparator of an ascending sort by due date in
  which a missing due date sorts after all present due dates; two missing dates compare
  equal, which is what lets the title decide (line 229).
\<close>

definition compareDateStrings :: "(string \<Rightarrow> int) \<Rightarrow> string option \<Rightarrow> string option \<Rightarrow> int" where
  "compareDateStrings time a b =
     (if \<not> truthy a \<and> \<not> truthy b then 0
      else if \<not> truthy a then 1
      else if \<not> truthy b then - 1
      else time (the a) - time (the b))"

text \<open>The comparator of lines 224-230.\<close>

definition compareMilestones :: "env \<Rightarrow> milestone_json \<Rightarrow> milestone_json \<Rightarrow> int" where
  "compareMilestones e a b =
     (let cmp = compareDateStrings (dateTime e) (due_on a) (due_on b) in
      if cmp \<noteq> 0 then cmp else localeCompare e (title a) (title b))"

text \<open>
  \<^verbatim>\<open>Array.prototype.sort\<close> with a comparator. The listing asks for at most 10
  milestones, and for arrays that short the engine sorts by insertion, which is stable.
\<close>

fun insertBy :: "('a \<Rightarrow> 'a \<Rightarrow> int) \<Rightarrow> 'a \<Rightarrow> 'a list \<Rightarrow> 'a list" where
  "insertBy c x [] = [x]"
| "insertBy c x (y # ys) = (if c x y \<le> 0 then x # y # ys else y # insertBy c x ys)"

definition sortBy :: "('a \<Rightarrow> 'a \<Rightarrow> int) \<Rightarrow> 'a list \<Rightarrow> 'a list" where
  "sortBy c xs = foldr (insertBy c) xs []"

text \<open>Lines 224-235 on the fetched list.\<close>

definition sortedMilestones :: "env \<Rightarrow> milestone_json list \<Rightarrow> milestone_json list" where
  "sortedMilestones e ms = sortBy (compareMilestones e) ms"

definition selectMilestones :: "env \<Rightarrow> milestone_json list \<Rightarrow> string list" where
  "selectMilestones e ms =
     (let sorted = sortedMilestones e ms;
          kept = (if sorted \<noteq> [] \<and> truthy (due_on (sorted ! 0))
                  then filter (\<lambda>m. truthy (due_on m)) sorted else sorted)
      in map title (take 2 kept))"

definition getCurrentMilestones :: "env \<Rightarrow> GitRemote \<Rightarrow> error + string list" where
  "getCurrentMilestones e remote =
     (case getMilestones e (owner remote) (repo remote) 10 of
        Inl err \<Rightarrow> Inl err
      | Inr ms \<Rightarrow> Inr (selectMilestones e ms))"

section \<open>The issue aggregator (lines 104-142 of \<^verbatim>\<open>fetchChildren\<close>)\<close>

text \<open>Lines 114-122: the query of one remote and one milestone, or none.\<close>

definition searchQuery :: "GitRemote \<Rightarrow> string option \<Rightarrow> string" where
  "searchQuery remote m =
     ''repo:'' @ owner remote @ ''/'' @ repo remote @ '' is:open''
     @ (if username remote \<noteq> [] then '' assignee:'' @ username remote else [])
     @ (if truthy m then '' milestone:'' @ [CHR 0x22] @ the m @ [CHR 0x22] else [])"

definition searchParams :: "GitRemote \<Rightarrow> string option \<Rightarrow> search_params" where
  "searchParams remote m =
     \<lparr>q = searchQuery remote m, sort_param = ''created'', order_param = ''asc'', per_page = 100\<rparr>"

text \<open>Lines 125-132: the tree item of a search result.\<close>

definition toIssue :: "item_json \<Rightarrow> Issue" where
  "toIssue it =
     (let issue = newIssue (title it @ '' (#'' @ decimal (number it) @ '')'') it;
          icon = (if pull_request it then ''git-pull-request.svg'' else ''bug.svg'')
      in issue\<lparr>iconPath := icon,
               contextValue := (if pull_request it then ''pull_request'' else ''issue'')\<rparr>)"

text \<open>
  The inner loop (lines 113-134). It pushes onto the shared array \<^verbatim>\<open>issues\<close> as it
  goes, so a search that throws leaves what the earlier searches pushed: the result is the
  array and the thrown error, if any.
\<close>

fun searchMilestones ::
  "env \<Rightarrow> GitRemote \<Rightarrow> string option list \<Rightarrow> Issue list \<Rightarrow> Issue list \<times> error option" where
  "searchMilestones e remote [] iss = (iss, None)"
| "searchMilestones e remote (m # ms) iss =
     (case searchIssues e (searchParams remote m) of
        Inl err \<Rightarrow> (iss, Some err)
      | Inr items \<Rightarrow> searchMilestones e remote ms (iss @ map toIssue items))"

text \<open>The body of the \<^verbatim>\<open>try\<close> (lines 108-134).\<close>

definition tryRemote :: "env \<Rightarrow> GitRemote \<Rightarrow> Issue list \<Rightarrow> Issue list \<times> error option" where
  "tryRemote e remote iss =
     (case getCurrentMilestones e remote of
        Inl err \<Rightarrow> (iss, Some err)
      | Inr ms \<Rightarrow>
          searchMilestones e remote (if ms = [] then [None] else map Some ms) iss)"

text \<open>
  The loop over the remotes with its \<^verbatim>\<open>catch\<close> (lines 106-142): the two arrays after
  the loop, or the error that is thrown again.
\<close>

definition cannotAccess :: "GitRemote \<Rightarrow> TreeItem" where
  "cannotAccess remote = newTreeItem (''Cannot access '' @ owner remote @ ''/'' @ repo remote)"

fun aggregate ::
  "env \<Rightarrow> GitRemote list \<Rightarrow> Issue list \<Rightarrow> TreeItem list \<Rightarrow> error + Issue list \<times> TreeItem list" where
  "aggregate e [] iss errs = Inr (iss, errs)"
| "aggregate e (remote # rest) iss errs =
     (case tryRemote e remote iss of
        (iss', None) \<Rightarrow> aggregate e rest iss' errs
      | (iss', Some err) \<Rightarrow>
          if code err = Some 404 then aggregate e rest iss' (errs @ [cannotAccess remote])
          else Inl err)"

section \<open>The remote resolver (\<^verbatim>\<open>getGitHubRemotes\<close>, lines 238-252)\<close>

text \<open>
  The text is a list of code units below 256. Of these, the class \<^verbatim>\<open>\s\<close> of a
  JavaScript regular expression holds tab, line feed, vertical tab, form feed, carriage
  return, space and the no-break space; the line terminators, after which \<^verbatim>\<open>^\<close> matches
  under the flag \<^verbatim>\<open>m\<close>, are line feed and carriage return.
\<close>

definition isSpace :: "char \<Rightarrow> bool" where
  "isSpace c = (c \<in> set [CHR 0x09, CHR 0x0A, CHR 0x0B, CHR 0x0C, CHR 0x0D, CHR 0x20, CHR 0xA0])"

definition isLineTerminator :: "char \<Rightarrow> bool" where
  "isLineTerminator c = (c \<in> set [CHR 0x0A, CHR 0x0D])"

abbreviation nonSpace :: "char \<Rightarrow> bool" where
  "nonSpace c \<equiv> \<not> isSpace c"

text \<open>
  A match of \<^verbatim>\<open>[^\s]+\s+([^\s]+)\<close> at the start of the text: the group and the text
  after the match. The three classes are runs of complementary characters, so that a
  shorter choice for a greedy quantifier leaves the next one without a character to start
  on, and backtracking finds no other match.
\<close>

definition matchLine :: "string \<Rightarrow> (string \<times> string) option" where
  "matchLine cs =
     (let name = takeWhile nonSpace cs;
          r1 = dropWhile nonSpace cs;
          sp = takeWhile isSpace r1;
          r2 = dropWhile isSpace r1;
          u = takeWhile nonSpace r2
      in if name \<noteq> [] \<and> sp \<noteq> [] \<and> u \<noteq> [] then Some (u, dropWhile nonSpace r2) else None)"

text \<open>
  Modelled from the spec: \<^verbatim>\<open>allMatches\<close> of \<^verbatim>\<open>./utils\<close>, which is not among the
  sources. The spec has it extract the group of every match of the regular expression in
  the output. The expression of line 241 is \<^verbatim>\<open>/^[^\s]+\s+([^\s]+)/gm\<close>: each search
  goes on from the end of the last match and finds the first position after a line
  terminator, or at the start of the text, at which the expression matches. The flag
  tells whether the position is such a start of a line.
\<close>

function allMatches :: "bool \<Rightarrow> string \<Rightarrow> string list" where
  "allMatches bol [] = []"
| "allMatches bol (c # cs) =
     (if bol then
        (case matchLine (c # cs) of
           Some (u, rest) \<Rightarrow> u # allMatches False rest
         | None \<Rightarrow> allMatches (isLineTerminator c) cs)
      else allMatches (isLineTerminator c) cs)"
  by pat_completeness auto
termination
proof (relation "measure (\<lambda>(bol, cs). length cs)")
  fix bol c cs x u rest
  assume "matchLine (c # cs) = Some x" and "(u, rest) = x"
  then have "rest = dropWhile nonSpace (dropWhile isSpace (dropWhile nonSpace (c # cs)))"
    and "takeWhile nonSpace (c # cs) \<noteq> []"
    by (auto simp: matchLine_def Let_def split: if_splits)
  then have "rest = dropWhile nonSpace (dropWhile isSpace (dropWhile nonSpace cs))"
    by (auto split: if_splits)
  moreover have "length (dropWhile nonSpace (dropWhile isSpace (dropWhile nonSpace cs))) \<le> length cs"
    by (meson length_dropWhile_le order_trans)
  ultimately show "((False, rest), (bol, c # cs)) \<in> measure (\<lambda>(bol, cs). length cs)"
    by simp
qed simp_all

text \<open>
  \<^verbatim>\<open>/([^\s]*github\.com\/([^/]+)\/([^ \.]+)[^\s]*)/\<close> (line 242). After the host: the
  owner is the run of characters up to the next slash and is not empty, the slash follows,
  and the repository is the run of characters up to the next space or dot and is not
  empty; the rest of the match runs up to the next white space. The result is the owner,
  the repository and the text matched after the host.
\<close>

definition matchAfterHost :: "string \<Rightarrow> (string \<times> string \<times> string) option" where
  "matchAfterHost cs =
     (let ow = takeWhile (\<lambda>c. c \<noteq> CHR ''/'') cs in
      case dropWhile (\<lambda>c. c \<noteq> CHR ''/'') cs of
        [] \<Rightarrow> None
      | slash # r \<Rightarrow>
          (let rp = takeWhile (\<lambda>c. c \<noteq> CHR '' '' \<and> c \<noteq> CHR ''.'') r;
               tl = takeWhile nonSpace (dropWhile (\<lambda>c. c \<noteq> CHR '' '' \<and> c \<noteq> CHR ''.'') r)
           in if ow \<noteq> [] \<and> rp \<noteq> [] then Some (ow, rp, ow @ [slash] @ rp @ tl) else None))"

text \<open>
  The match whose leading \<^verbatim>\<open>[^\s]*\<close> takes \<open>k\<close> characters: the groups 1, 2 and 3.
\<close>

definition matchWithPrefix :: "string \<Rightarrow> nat \<Rightarrow> (string \<times> string \<times> string) option" where
  "matchWithPrefix cs k =
     (if take 11 (drop k cs) = ''github.com/'' then
        (case matchAfterHost (drop (k + 11) cs) of
           None \<Rightarrow> None
         | Some (ow, rp, matched) \<Rightarrow> Some (take k cs @ ''github.com/'' @ matched, ow, rp))
      else None)"

text \<open>The greedy \<^verbatim>\<open>[^\s]*\<close> gives back one character at a time, from \<open>k\<close> down.\<close>

fun matchFrom :: "string \<Rightarrow> nat \<Rightarrow> (string \<times> string \<times> string) option" where
  "matchFrom cs 0 = matchWithPrefix cs 0"
| "matchFrom cs (Suc k) =
     (case matchWithPrefix cs (Suc k) of Some m \<Rightarrow> Some m | None \<Rightarrow> matchFrom cs k)"

text \<open>\<^verbatim>\<open>exec\<close> of the expression: the match at the leftmost position that has one.\<close>

fun execGitHub :: "string \<Rightarrow> (string \<times> string \<times> string) option" where
  "execGitHub [] = matchFrom [] 0"
| "execGitHub (c # cs) =
     (case matchFrom (c # cs) (length (takeWhile nonSpace (c # cs))) of
        Some m \<Rightarrow> Some m
      | None \<Rightarrow> execGitHub cs)"

text \<open>
  The elements of a list in the order of their first occurrence; this is also the
  iteration order of a JavaScript \<^verbatim>\<open>Set\<close> built from the list.
\<close>

fun firstSeen :: "'a list \<Rightarrow> 'a list" where
  "firstSeen [] = []"
| "firstSeen (x # xs) = x # removeAll x (firstSeen xs)"

text \<open>The body of the loop (lines 242-249) for one URL: the remote it pushes, if any.\<close>

definition toRemote :: "env \<Rightarrow> string \<Rightarrow> GitRemote option" where
  "toRemote e u =
     (case execGitHub u of
        None \<Rightarrow> None
      | Some (m1, m2, m3) \<Rightarrow>
          (case fill e m1 of
             None \<Rightarrow> None
           | Some user \<Rightarrow> Some \<lparr>url = m1, owner = m2, repo = m3, username = user\<rparr>))"

fun remotesLoop :: "env \<Rightarrow> string list \<Rightarrow> GitRemote list \<Rightarrow> GitRemote list" where
  "remotesLoop e [] remotes = remotes"
| "remotesLoop e (u # us) remotes =
     (case toRemote e u of
        None \<Rightarrow> remotesLoop e us remotes
      | Some remote \<Rightarrow> remotesLoop e us (remotes @ [remote]))"

text \<open>
  \<^verbatim>\<open>getGitHubRemotes\<close>: the loop over the \<^verbatim>\<open>Set\<close> of the matches, or the rejection of
  the subprocess.
\<close>

definition getGitHubRemotes :: "env \<Rightarrow> error + GitRemote list" where
  "getGitHubRemotes e =
     (case gitRemoteV e of
        Inl err \<Rightarrow> Inl err
      | Inr stdout \<Rightarrow> Inr (remotesLoop e (firstSeen (allMatches True stdout)) []))"

section \<open>\<^verbatim>\<open>fetchChildren\<close> (lines 89-166)\<close>

definition fetchChildren :: "env \<Rightarrow> error + node list" where
  "fetchChildren e =
     (if \<not> truthy (rootPath e) then Inr [Plain (newTreeItem ''No folder opened'')]
      else
        case getGitHubRemotes e of
          Inl err \<Rightarrow> Inr [Plain (newTreeItem ''Not a GitHub repository'')]
        | Inr remotes \<Rightarrow>
            if remotes = [] then Inr [Plain (newTreeItem ''No GitHub remotes found'')]
            else
              (case aggregate e remotes [] [] of
                 Inl err \<Rightarrow> Inl err
               | Inr (iss, errs) \<Rightarrow> buildTree iss errs))"

section \<open>The tree provider (lines 35-87)\<close>

text \<open>
  The promise that \<^verbatim>\<open>fetchChildren\<close> returns is pending until the build settles. The
  provider holds promises by reference: \<^verbatim>\<open>promises\<close> lists every promise a build has
  returned, and \<^verbatim>\<open>children\<close> is the position of the cached one, if any.
  \<^verbatim>\<open>awaiting\<close> holds, for each call of \<^verbatim>\<open>refresh\<close> that is suspended at its
  \<^verbatim>\<open>await\<close> (line 78), the promise it waits for; \<^verbatim>\<open>fired\<close> counts the change
  notifications (line 79).
\<close>

datatype promise = Pending | Fulfilled "node list" | Rejected error

record provider =
  fetching :: bool
  lastFetch :: "nat option"
  children :: "nat option"
  promises :: "promise list"
  awaiting :: "nat list"
  fired :: nat

definition initial :: provider where
  "initial = \<lparr>fetching = False, lastFetch = None, children = None, promises = [],
     awaiting = [], fired = 0\<rparr>"

text \<open>
  \<^verbatim>\<open>getChildren\<close> (lines 60-73) at the time \<open>now\<close> of \<^verbatim>\<open>Date.now()\<close>. For a
  \<^verbatim>\<open>Milestone\<close> it returns the issues of the element and touches nothing; otherwise it
  starts a build when nothing is cached. It runs to its end without being suspended.
\<close>

definition getChildren :: "node option \<Rightarrow> nat \<Rightarrow> provider \<Rightarrow> provider" where
  "getChildren element now s =
     (case element of
        Some (MilestoneNode m) \<Rightarrow> s
      | _ \<Rightarrow>
          if children s = None then
            s\<lparr>fetching := True, lastFetch := Some now,
              children := Some (length (promises s)),
              promises := promises s @ [Pending]\<rparr>
          else s)"

text \<open>
  \<^verbatim>\<open>refresh\<close> (lines 75-81) up to its \<^verbatim>\<open>await\<close>; the notification of line 79 is
  fired when the awaited promise is fulfilled.
\<close>

definition refresh :: "nat \<Rightarrow> provider \<Rightarrow> provider" where
  "refresh now s =
     (if \<not> fetching s then
        (let s' = getChildren None now (s\<lparr>children := None\<rparr>) in
         case children s' of
           None \<Rightarrow> s'
         | Some p \<Rightarrow> s'\<lparr>awaiting := awaiting s' @ [p]\<rparr>)
      else s)"

text \<open>
  The test of line 84: \<^verbatim>\<open>lastFetch\<close> is falsy, which it is when undefined and when 0,
  or lies more than 30 minutes back.
\<close>

definition stale :: "nat \<Rightarrow> provider \<Rightarrow> bool" where
  "stale now s =
     (case lastFetch s of None \<Rightarrow> True | Some t \<Rightarrow> t = 0 \<or> t + 30 * 60 * 1000 < now)"

text \<open>\<^verbatim>\<open>poll\<close> (lines 83-87).\<close>

definition poll :: "nat \<Rightarrow> provider \<Rightarrow> provider" where
  "poll now s = (if stale now s then refresh now s else s)"

text \<open>
  The promise \<open>p\<close> settles with the outcome of its build. When it is fulfilled, the handler
  of line 69 clears \<^verbatim>\<open>fetching\<close> and every \<^verbatim>\<open>refresh\<close> that awaits it goes on to fire
  its notification; when it is rejected, that handler does not run and the awaiting calls
  of \<^verbatim>\<open>refresh\<close> are rejected in turn.
\<close>

definition settle :: "nat \<Rightarrow> error + node list \<Rightarrow> provider \<Rightarrow> provider" where
  "settle p outcome s =
     (if p < length (promises s) \<and> promises s ! p = Pending then
        (case outcome of
           Inr tree \<Rightarrow>
             s\<lparr>promises := (promises s)[p := Fulfilled tree], fetching := False,
               fired := fired s + count_list (awaiting s) p,
               awaiting := removeAll p (awaiting s)\<rparr>
         | Inl err \<Rightarrow>
             s\<lparr>promises := (promises s)[p := Rejected err],
               awaiting := removeAll p (awaiting s)\<rparr>)
      else s)"

text \<open>
  What can happen to the provider: the host asks for children, the refresh command, the
  focus change that calls \<^verbatim>\<open>poll\<close>, and the settling of a build. Each happens at a time.
\<close>

datatype event = GetChildren "node option" | Refresh | Poll | Settle nat "error + node list"

fun step :: "nat \<times> event \<Rightarrow> provider \<Rightarrow> provider" where
  "step (now, GetChildren element) s = getChildren element now s"
| "step (now, Refresh) s = refresh now s"
| "step (now, Poll) s = poll now s"
| "step (now, Settle p outcome) s = settle p outcome s"

definition run :: "(nat \<times> event) list \<Rightarrow> provider \<Rightarrow> provider" where
  "run evs s = foldl (\<lambda>s ev. step ev s) s evs"

inductive reachable :: "provider \<Rightarrow> bool" where
  reachable_initial: "reachable initial"
| reachable_step: "reachable s \<Longrightarrow> reachable (step ev s)"

text \<open>A build is in flight: one of the promises is pending.\<close>

definition inFlight :: "provider \<Rightarrow> bool" where
  "inFlight s = (Pending \<in> set (promises s))"

text \<open>
  What holds in every reachable state: a pending promise is the cached one and the busy
  flag is set while it is pending; the cached reference is a promise that exists; the busy
  flag is set only with a cached promise; and \<^verbatim>\<open>lastFetch\<close> is undefined exactly as long
  as no build was started.
\<close>

definition providerInv :: "provider \<Rightarrow> bool" where
  "providerInv s =
     ((\<forall>p < length (promises s). promises s ! p = Pending \<longrightarrow> fetching s \<and> children s = Some p)
      \<and> (\<forall>p. children s = Some p \<longrightarrow> p < length (promises s))
      \<and> (fetching s \<longrightarrow> children s \<noteq> None)
      \<and> ((lastFetch s = None) = (promises s = [])))"

section \<open>The listing of the remotes in the words of the spec\<close>

text \<open>The lines of a text: the runs between its line terminators.\<close>

function linesOf :: "string \<Rightarrow> string list" where
  "linesOf cs =
     (case dropWhile (\<lambda>c. \<not> isLineTerminator c) cs of
        [] \<Rightarrow> [takeWhile (\<lambda>c. \<not> isLineTerminator c) cs]
      | lt # rest \<Rightarrow> takeWhile (\<lambda>c. \<not> isLineTerminator c) cs # linesOf rest)"
  by pat_completeness auto
termination
proof (relation "measure length")
  fix cs :: string and lt rest
  assume "dropWhile (\<lambda>c. \<not> isLineTerminator c) cs = lt # rest"
  moreover have "length (dropWhile (\<lambda>c. \<not> isLineTerminator c) cs) \<le> length cs"
    by (rule length_dropWhile_le)
  ultimately show "(rest, cs) \<in> measure length" by simp
qed simp

declare linesOf.simps [simp del]

text \<open>The tokens of a line: its maximal runs of characters that are not white space.\<close>

function tokens :: "string \<Rightarrow> string list" where
  "tokens cs =
     (case dropWhile isSpace cs of
        [] \<Rightarrow> []
      | c # r \<Rightarrow> takeWhile nonSpace (c # r) # tokens (dropWhile nonSpace r))"
  by pat_completeness auto
termination
proof (relation "measure length")
  fix cs :: string and c r
  assume "dropWhile isSpace cs = c # r"
  moreover have "length (dropWhile isSpace cs) \<le> length cs"
    by (rule length_dropWhile_le)
  moreover have "length (dropWhile nonSpace r) \<le> length r"
    by (rule length_dropWhile_le)
  ultimately show "(dropWhile nonSpace r, cs) \<in> measure length" by simp
qed simp

declare tokens.simps [simp del]

text \<open>The second token of a line, if it has one, and those of all the lines of a text.\<close>

definition secondToken :: "string \<Rightarrow> string list" where
  "secondToken l = (case tokens l of t1 # t2 # ts \<Rightarrow> [t2] | _ \<Rightarrow> [])"

definition secondTokens :: "string \<Rightarrow> string list" where
  "secondTokens text = concat (map secondToken (linesOf text))"

text \<open>
  The output of \<^verbatim>\<open>git remote -v\<close>, which prints \<^verbatim>\<open><name>\t<url> (fetch|push)\<close> on
  each line: every line is blank, or it starts with the name and has a second token.
\<close>

definition remoteLine :: "string \<Rightarrow> bool" where
  "remoteLine l = (tokens l = [] \<or> (l \<noteq> [] \<and> nonSpace (hd l) \<and> 2 \<le> length (tokens l)))"

definition remoteListing :: "string \<Rightarrow> bool" where
  "remoteListing text = list_all remoteLine (linesOf text)"

text \<open>
  A URL of the GitHub pattern with its owner and repository: the host \<^verbatim>\<open>github.com/\<close>,
  an owner without a slash, a slash, and a repository name that stops at a space or a dot
  or at the end of the URL.
\<close>

definition gitHubUrl :: "string \<Rightarrow> string \<Rightarrow> string \<Rightarrow> bool" where
  "gitHubUrl u ow rp =
     (ow \<noteq> [] \<and> CHR ''/'' \<notin> set ow \<and> rp \<noteq> [] \<and> CHR '' '' \<notin> set rp \<and> CHR ''.'' \<notin> set rp
      \<and> (\<exists>pre tl. u = pre @ ''github.com/'' @ ow @ ''/'' @ rp @ tl
            \<and> (tl = [] \<or> hd tl = CHR ''.'' \<or> hd tl = CHR '' '')))"

section \<open>The milestone order in the words of the spec\<close>

text \<open>
  Ascending by due date, a milestone without a due date after every milestone with one,
  and the comparison of the titles where the due dates do not decide.
\<close>

definition milestoneBefore :: "env \<Rightarrow> milestone_json \<Rightarrow> milestone_json \<Rightarrow> bool" where
  "milestoneBefore e a b =
     (if truthy (due_on a) \<and> truthy (due_on b) then
        dateTime e (the (due_on a)) < dateTime e (the (due_on b))
        \<or> (dateTime e (the (due_on a)) = dateTime e (the (due_on b))
            \<and> localeCompare e (title a) (title b) \<le> 0)
      else if truthy (due_on a) then True
      else if truthy (due_on b) then False
      else localeCompare e (title a) (title b) \<le> 0)"

text \<open>
  What the sort needs of \<^verbatim>\<open>localeCompare\<close>: any two strings are comparable, and the
  comparison is transitive.
\<close>

definition consistentCompare :: "(string \<Rightarrow> string \<Rightarrow> int) \<Rightarrow> bool" where
  "consistentCompare c =
     ((\<forall>a b. c a b \<le> 0 \<or> c b a \<le> 0) \<and> (\<forall>a b d. c a b \<le> 0 \<and> c b d \<le> 0 \<longrightarrow> c a d \<le> 0))"

section \<open>The grouping in the words of the spec\<close>

text \<open>
  The groups the spec describes: one expanded group per key, in first-seen order of the
  keys, each with the issues of that key in the order of the issue list.
\<close>

definition groupOf :: "Issue list \<Rightarrow> string \<Rightarrow> Milestone" where
  "groupOf iss l =
     \<lparr>label = l, collapsibleState = Expanded, issues = filter (\<lambda>i. milestoneLabel i = l) iss\<rparr>"

definition groupsOf :: "Issue list \<Rightarrow> Milestone list" where
  "groupsOf iss = map (groupOf iss) (firstSeen (map milestoneLabel iss))"

text \<open>
  What holds of the loop's state after the issues \<open>seen\<close>: the groups are those of the
  spec, and the index maps exactly the labels seen so far, each to the position of its
  group.
\<close>

definition groupingInv :: "grouping \<Rightarrow> Issue list \<Rightarrow> bool" where
  "groupingInv g seen \<longleftrightarrow>
     milestones g = groupsOf seen \<and>
     (\<forall>l i. milestoneIndex g l = Some i \<longleftrightarrow>
        i < length (firstSeen (map milestoneLabel seen)) \<and> firstSeen (map milestoneLabel seen) ! i = l)"

section \<open>The aggregation in the words of the spec\<close>

text \<open>
  The passes of a remote (lines 108-111): its current milestones, or the single pass
  without a milestone when it has none; no pass when the listing throws.
\<close>

definition milestonePasses :: "env \<Rightarrow> GitRemote \<Rightarrow> string option list" where
  "milestonePasses e remote =
     (case getCurrentMilestones e remote of
        Inl err \<Rightarrow> []
      | Inr ms \<Rightarrow> if ms = [] then [None] else map Some ms)"

text \<open>Whether the search of a pass returns, and the issues of its result in result order.\<close>

definition searchSucceeds :: "env \<Rightarrow> GitRemote \<Rightarrow> string option \<Rightarrow> bool" where
  "searchSucceeds e remote m =
     (case searchIssues e (searchParams remote m) of Inl err \<Rightarrow> False | Inr items \<Rightarrow> True)"

definition searchResults :: "env \<Rightarrow> GitRemote \<Rightarrow> string option \<Rightarrow> Issue list" where
  "searchResults e remote m =
     (case searchIssues e (searchParams remote m) of Inl err \<Rightarrow> [] | Inr items \<Rightarrow> map toIssue items)"

text \<open>
  What one remote adds to the issue list: the results of its passes in milestone order, up
  to the first search that throws. And the error its processing raises, if any.
\<close>

definition remoteIssues :: "env \<Rightarrow> GitRemote \<Rightarrow> Issue list" where
  "remoteIssues e remote =
     concat (map (searchResults e remote)
       (takeWhile (searchSucceeds e remote) (milestonePasses e remote)))"

definition remoteError :: "env \<Rightarrow> GitRemote \<Rightarrow> error option" where
  "remoteError e remote = snd (tryRemote e remote [])"

text \<open>A remote whose processing raises an error that is not 404-class.\<close>

definition abortsOn :: "env \<Rightarrow> GitRemote \<Rightarrow> bool" where
  "abortsOn e remote =
     (case remoteError e remote of None \<Rightarrow> False | Some err \<Rightarrow> code err \<noteq> Some 404)"

text \<open>A remote whose processing raises a 404-class error.\<close>

definition raises404 :: "env \<Rightarrow> GitRemote \<Rightarrow> bool" where
  "raises404 e remote =
     (case remoteError e remote of None \<Rightarrow> False | Some err \<Rightarrow> code err = Some 404)"

section \<open>Example data\<close>

text \<open>
  A runtime for the examples: the time value of a date \<^verbatim>\<open>YYYY-MM-DD\<close> read as the
  number its digits spell, which orders such dates as the calendar does, and the
  comparison of strings by code units, which is how \<^verbatim>\<open>localeCompare\<close> orders
  upper-case ASCII letters.
\<close>

definition exDateTime :: "string \<Rightarrow> int" where
  "exDateTime s =
     int (foldl (\<lambda>n c. let k = (of_char c :: nat) in
                  if 48 \<le> k \<and> k \<le> 57 then 10 * n + (k - 48) else n) 0 s)"

fun compareCodeUnits :: "string \<Rightarrow> string \<Rightarrow> int" where
  "compareCodeUnits [] [] = 0"
| "compareCodeUnits [] (y # ys) = - 1"
| "compareCodeUnits (x # xs) [] = 1"
| "compareCodeUnits (x # xs) (y # ys) =
     (if (of_char x :: nat) < of_char y then - 1
      else if (of_char y :: nat) < of_char x then 1
      else compareCodeUnits xs ys)"

text \<open>The milestones of the spec's examples.\<close>

definition exA :: milestone_json where
  "exA = \<lparr>title = ''A'', due_on = Some ''2024-03-01''\<rparr>"

definition exB :: milestone_json where
  "exB = \<lparr>title = ''B'', due_on = None\<rparr>"

definition exC :: milestone_json where
  "exC = \<lparr>title = ''C'', due_on = Some ''2024-01-01''\<rparr>"

text \<open>The two undated milestones of the spec's second example.\<close>

definition exUndatedZ :: milestone_json where
  "exUndatedZ = \<lparr>title = ''Z'', due_on = None\<rparr>"

definition exUndatedA :: milestone_json where
  "exUndatedA = \<lparr>title = ''A'', due_on = None\<rparr>"

text \<open>A remote that can be accessed and one that cannot.\<close>

definition exRemote :: GitRemote where
  "exRemote = \<lparr>url = ''https://github.com/acme/widgets.git'', owner = ''acme'',
     repo = ''widgets'', username = ''octocat''\<rparr>"

definition exGone :: GitRemote where
  "exGone = \<lparr>url = ''https://github.com/acme/gone.git'', owner = ''acme'',
     repo = ''gone'', username = ''octocat''\<rparr>"

definition notFound :: error where
  "notFound = Error (Some 404) ''Not Found''"

definition serverError :: error where
  "serverError = Error (Some 500) ''Internal Server Error''"

text \<open>
  An environment: the repository \<^verbatim>\<open>acme/widgets\<close> has the three milestones above, one
  open issue in \<^verbatim>\<open>C\<close> and two in \<^verbatim>\<open>A\<close>; every other repository is answered with 404.
\<close>

definition exItem :: "nat \<Rightarrow> string option \<Rightarrow> item_json" where
  "exItem n m =
     \<lparr>title = ''Issue'', number = n,
       html_url = ''https://github.com/acme/widgets/issues/'' @ decimal n,
       milestone = map_option (\<lambda>t. \<lparr>title = t, due_on = None\<rparr>) m, pull_request = False\<rparr>"

definition exIssue :: "nat \<Rightarrow> string option \<Rightarrow> Issue" where
  "exIssue n m = toIssue (exItem n m)"

definition exEnv :: env where
  "exEnv =
     \<lparr>rootPath = Some ''/home/dev/widgets'',
      gitRemoteV = Inr [],
      fill = (\<lambda>u. Some ''octocat''),
      getMilestones = (\<lambda>ow rp n. if ow = ''acme'' \<and> rp = ''widgets''
                                   then Inr [exA, exB, exC] else Inl notFound),
      searchIssues = (\<lambda>p.
         if q p = ''repo:acme/widgets is:open assignee:octocat milestone:'' @ [CHR 0x22] @ ''C'' @ [CHR 0x22]
           then Inr [exItem 1 (Some ''C'')]
         else if q p = ''repo:acme/widgets is:open assignee:octocat milestone:'' @ [CHR 0x22] @ ''A'' @ [CHR 0x22]
           then Inr [exItem 2 (Some ''A''), exItem 3 (Some ''A'')]
         else Inl notFound),
      dateTime = exDateTime,
      localeCompare = compareCodeUnits\<rparr>"

text \<open>The same, but the search of the second pass of a remote is answered with 404.\<close>

definition exEnvLate404 :: env where
  "exEnvLate404 =
     exEnv\<lparr>searchIssues := (\<lambda>p.
         if q p = ''repo:acme/widgets is:open assignee:octocat milestone:'' @ [CHR 0x22] @ ''C'' @ [CHR 0x22]
           then Inr [exItem 1 (Some ''C'')]
         else Inl notFound)\<rparr>"

text \<open>
  Traces of the provider. In the first, the view is shown and its build is still running.
  In the second, that build has returned and a refresh has started the next one, which is
  still running. In the third, the first build took 25 minutes to return.
\<close>

definition exTree :: "node list" where
  "exTree = [Plain (newTreeItem ''No issues found'')]"

definition exBuilding :: "(nat \<times> event) list" where
  "exBuilding = [(1000, GetChildren None)]"

definition exRefreshed :: "(nat \<times> event) list" where
  "exRefreshed = [(1000, GetChildren None), (2000, Settle 0 (Inr exTree)), (3000, Refresh)]"

definition exSlowBuild :: "(nat \<times> event) list" where
  "exSlowBuild = [(1000, GetChildren None), (1501000, Settle 0 (Inr exTree))]"

text \<open>The first build is rejected; then a refresh, a focus change and the host follow.\<close>

definition exRejected :: "(nat \<times> event) list" where
  "exRejected = [(1000, GetChildren None), (1500, Settle 0 (Inl serverError))]"

definition exAfterwards :: "(nat \<times> event) list" where
  "exAfterwards = [(2000, Refresh), (1900000, Poll), (1900001, GetChildren None),
     (1900002, Refresh)]"

text \<open>
  The output of \<^verbatim>\<open>git remote -v\<close> for one remote \<^verbatim>\<open>origin\<close>: a fetch line and a push
  line with the same URL. And the environment above with this output.
\<close>

definition exListing :: string where
  "exListing =
     ''origin'' @ [CHR 0x09] @ ''https://github.com/acme/widgets.git (fetch)'' @ [CHR 0x0A]
     @ ''origin'' @ [CHR 0x09] @ ''https://github.com/acme/widgets.git (push)'' @ [CHR 0x0A]"

definition exListingEnv :: env where
  "exListingEnv = exEnv\<lparr>gitRemoteV := Inr exListing\<rparr>"



section \<open>Theorems\<close>

text \<open>
  C9. Applied to an empty issue list, the tree builder returns the error list when that
  list is non-empty and otherwise the single message \<^verbatim>\<open>No issues found\<close>; the result
  does not go through the grouping or the flattening.
\<close>

theorem buildTree_empty_issues:
  "buildTree [] errs =
     Inr (if errs \<noteq> [] then map Plain errs else [Plain (newTreeItem ''No issues found'')])"
  by (simp add: buildTree_def)

subsection \<open>The grouping loop\<close>

lemma set_firstSeen [simp]: "set (firstSeen xs) = set xs"
  by (induction xs) auto

lemma distinct_firstSeen [simp]: "distinct (firstSeen xs)"
  by (induction xs) (auto simp: distinct_removeAll)

lemma firstSeen_snoc:
  "firstSeen (xs @ [y]) = (if y \<in> set xs then firstSeen xs else firstSeen xs @ [y])"
  by (induction xs) auto

lemma groupingInv_empty: "groupingInv emptyGrouping []"
  by (simp add: groupingInv_def emptyGrouping_def groupsOf_def)

lemma groupOf_snoc_other:
  "milestoneLabel x \<noteq> l \<Longrightarrow> groupOf (seen @ [x]) l = groupOf seen l"
  by (simp add: groupOf_def)

lemma groupOf_snoc_same:
  "groupOf (seen @ [x]) (milestoneLabel x) = pushIssue x (groupOf seen (milestoneLabel x))"
  by (simp add: groupOf_def pushIssue_def)

lemma groupOf_new:
  "milestoneLabel x \<notin> milestoneLabel ` set seen \<Longrightarrow>
   groupOf (seen @ [x]) (milestoneLabel x) = pushIssue x (newMilestone (milestoneLabel x))"
proof -
  assume "milestoneLabel x \<notin> milestoneLabel ` set seen"
  then have "\<forall>i\<in>set seen. milestoneLabel i \<noteq> milestoneLabel x"
    by (metis imageI)
  then have "filter (\<lambda>i. milestoneLabel i = milestoneLabel x) seen = []"
    by (simp add: filter_empty_conv)
  then show ?thesis
    by (simp add: groupOf_def pushIssue_def newMilestone_def)
qed

lemma groupIssue_step:
  assumes inv: "groupingInv g seen" and ok: "groupIssue g x = Inr g'"
  shows "groupingInv g' (seen @ [x])"
proof -
  let ?ls = "firstSeen (map milestoneLabel seen)"
  let ?l = "milestoneLabel x"
  from inv have ms: "milestones g = map (groupOf seen) ?ls"
    and idx: "\<And>l i. milestoneIndex g l = Some i \<longleftrightarrow> i < length ?ls \<and> ?ls ! i = l"
    by (simp_all add: groupingInv_def groupsOf_def)
  show ?thesis
  proof (cases "milestoneIndex g ?l")
    case (Some i)
    with idx have i: "i < length ?ls" "?ls ! i = ?l" by auto
    then have mem: "?l \<in> set (map milestoneLabel seen)"
      using nth_mem [of i ?ls] by simp
    from Some ok have g': "g' = g\<lparr>milestones := (milestones g)[i := pushIssue x (milestones g ! i)]\<rparr>"
      by (simp add: groupIssue_def Let_def)
    have fs: "firstSeen (map milestoneLabel seen @ [?l]) = ?ls"
      using mem by (simp add: firstSeen_snoc)
    have "(milestones g)[i := pushIssue x (milestones g ! i)] = map (groupOf (seen @ [x])) ?ls"
    proof (rule nth_equalityI)
      show "length ((milestones g)[i := pushIssue x (milestones g ! i)]) = length (map (groupOf (seen @ [x])) ?ls)"
        by (simp add: ms)
    next
      fix k assume "k < length ((milestones g)[i := pushIssue x (milestones g ! i)])"
      then have k: "k < length ?ls" by (simp add: ms)
      show "(milestones g)[i := pushIssue x (milestones g ! i)] ! k = map (groupOf (seen @ [x])) ?ls ! k"
      proof (cases "k = i")
        case True
        then show ?thesis using i k by (simp add: ms groupOf_snoc_same [symmetric])
      next
        case False
        with i k have "?ls ! k \<noteq> ?l"
          using distinct_firstSeen [of "map milestoneLabel seen"] by (metis nth_eq_iff_index_eq)
        then show ?thesis using False k by (simp add: ms groupOf_snoc_other)
      qed
    qed
    then show ?thesis
      using idx by (simp add: groupingInv_def groupsOf_def g' fs)
  next
    case None
    with idx have nmem: "?l \<notin> set ?ls"
      by (metis in_set_conv_nth option.distinct(1))
    then have nmem': "?l \<notin> milestoneLabel ` set seen" by simp
    from None ok have g': "g' = \<lparr>milestoneIndex = (milestoneIndex g)(?l \<mapsto> length (milestones g)),
        milestones = milestones g @ [pushIssue x (newMilestone ?l)]\<rparr>"
      by (simp add: groupIssue_def Let_def split: if_splits)
    have fs: "firstSeen (map milestoneLabel seen @ [?l]) = ?ls @ [?l]"
      using nmem' by (simp add: firstSeen_snoc)
    have "map (groupOf (seen @ [x])) ?ls = map (groupOf seen) ?ls"
      using nmem by (intro map_cong refl groupOf_snoc_other) auto
    then have m: "milestones g' = groupsOf (seen @ [x])"
      by (simp add: groupsOf_def fs g' ms groupOf_new [OF nmem'])
    have nth_ne: "\<And>i. i < length ?ls \<Longrightarrow> ?ls ! i \<noteq> ?l"
      using nmem nth_mem by metis
    have "\<And>l i. milestoneIndex g' l = Some i \<longleftrightarrow> i < length (?ls @ [?l]) \<and> (?ls @ [?l]) ! i = l"
      using idx nth_ne by (auto simp: g' ms nth_append less_Suc_eq)
    with m show ?thesis
      by (simp add: groupingInv_def fs)
  qed
qed

lemma groupIssues_inv:
  "groupingInv g seen \<Longrightarrow> groupIssues g rest = Inr g' \<Longrightarrow> groupingInv g' (seen @ rest)"
proof (induction rest arbitrary: g seen)
  case Nil
  then show ?case by simp
next
  case (Cons x rest)
  from Cons.prems(2) obtain g1 where g1: "groupIssue g x = Inr g1" and r: "groupIssues g1 rest = Inr g'"
    by (auto split: sum.splits)
  from groupIssue_step [OF Cons.prems(1) g1] have "groupingInv g1 (seen @ [x])" .
  from Cons.IH [OF this r] show ?case by simp
qed

lemma groupIssues_groupsOf:
  "groupIssues emptyGrouping iss = Inr g \<Longrightarrow> milestones g = groupsOf iss"
  using groupIssues_inv [OF groupingInv_empty, of iss g] by (simp add: groupingInv_def)


lemma groupIssue_succeeds:
  "milestoneLabel x \<notin> set objectPrototypeKeys \<Longrightarrow> \<exists>g'. groupIssue g x = Inr g'"
  by (simp add: groupIssue_def Let_def split: option.splits)

lemma groupIssues_succeeds:
  "\<forall>i\<in>set rest. milestoneLabel i \<notin> set objectPrototypeKeys \<Longrightarrow> \<exists>g'. groupIssues g rest = Inr g'"
proof (induction rest arbitrary: g)
  case Nil
  then show ?case by simp
next
  case (Cons x rest)
  then obtain g1 where "groupIssue g x = Inr g1"
    using groupIssue_succeeds [of x g] by auto
  with Cons show ?case by simp
qed

lemma groupIssues_groups:
  assumes "\<forall>i\<in>set iss. milestoneLabel i \<notin> set objectPrototypeKeys"
  shows "\<exists>g. groupIssues emptyGrouping iss = Inr g \<and> milestones g = groupsOf iss"
  using groupIssues_succeeds [OF assms, of emptyGrouping] groupIssues_groupsOf by blast

lemma distinct_singleton_set: "distinct ys \<Longrightarrow> set ys = {a} \<Longrightarrow> ys = [a]"
  by (cases ys) (auto simp: subset_singleton_iff)

lemma firstSeen_singleton_iff:
  "(length (firstSeen xs) = 1 \<and> firstSeen xs ! 0 = a) \<longleftrightarrow> set xs = {a}"
proof
  assume "length (firstSeen xs) = 1 \<and> firstSeen xs ! 0 = a"
  then have "firstSeen xs = [a]"
    by (cases "firstSeen xs") auto
  then have "set (firstSeen xs) = {a}" by simp
  then show "set xs = {a}" by simp
next
  assume "set xs = {a}"
  then have "firstSeen xs = [a]"
    by (intro distinct_singleton_set) simp_all
  then show "length (firstSeen xs) = 1 \<and> firstSeen xs ! 0 = a" by simp
qed

lemma groupsOf_single_iff:
  "(length (groupsOf iss) = 1 \<and> label (groupsOf iss ! 0) = l) \<longleftrightarrow>
   (iss \<noteq> [] \<and> (\<forall>i\<in>set iss. milestoneLabel i = l))"
proof -
  have "(length (groupsOf iss) = 1 \<and> label (groupsOf iss ! 0) = l) \<longleftrightarrow>
        (length (firstSeen (map milestoneLabel iss)) = 1 \<and> firstSeen (map milestoneLabel iss) ! 0 = l)"
    by (auto simp: groupsOf_def groupOf_def)
  also have "\<dots> \<longleftrightarrow> set (map milestoneLabel iss) = {l}"
    by (rule firstSeen_singleton_iff)
  also have "\<dots> \<longleftrightarrow> (iss \<noteq> [] \<and> (\<forall>i\<in>set iss. milestoneLabel i = l))"
    by (cases iss) auto
  finally show ?thesis .
qed

lemma groupsOf_single_issues:
  assumes "iss \<noteq> []" "\<forall>i\<in>set iss. milestoneLabel i = l"
  shows "issues (groupsOf iss ! 0) = iss"
proof -
  from assms have "set (map milestoneLabel iss) = {l}" by (cases iss) auto
  then have "firstSeen (map milestoneLabel iss) = [l]"
    by (intro distinct_singleton_set) simp_all
  then show ?thesis
    using assms(2) by (simp add: groupsOf_def groupOf_def)
qed

text \<open>
  Where the grouping loop returns, lines 161-165 do what the spec says of them: the tree
  builder returns the issues of the group directly when the loop produced exactly one
  group and its label is \<^verbatim>\<open>No Milestone\<close>, and the list of group nodes in every other
  case. The first case is the one in which no issue has a milestone, and the list returned
  is then the issue list itself.
\<close>

lemma buildTree_flattens_single_No_Milestone_group:
  assumes "iss \<noteq> []" and "groupIssues emptyGrouping iss = Inr g"
  shows "buildTree iss errs =
           Inr (if length (milestones g) = 1 \<and> label (milestones g ! 0) = ''No Milestone''
                then map IssueNode (issues (milestones g ! 0))
                else map MilestoneNode (milestones g))
         \<and> ((length (milestones g) = 1 \<and> label (milestones g ! 0) = ''No Milestone'')
              = (\<forall>i\<in>set iss. milestoneLabel i = ''No Milestone''))
         \<and> ((\<forall>i\<in>set iss. milestoneLabel i = ''No Milestone'')
              \<longrightarrow> buildTree iss errs = Inr (map IssueNode iss))"
proof -
  have ms: "milestones g = groupsOf iss"
    using assms(2) by (rule groupIssues_groupsOf)
  have bt: "buildTree iss errs = Inr (flatten (milestones g))"
    using assms by (simp add: buildTree_def)
  have single: "(length (milestones g) = 1 \<and> label (milestones g ! 0) = ''No Milestone'')
      = (\<forall>i\<in>set iss. milestoneLabel i = ''No Milestone'')"
    using groupsOf_single_iff [of iss "''No Milestone''"] assms(1) by (simp only: ms) simp
  have "buildTree iss errs = Inr (map IssueNode iss)"
    if all: "\<forall>i\<in>set iss. milestoneLabel i = ''No Milestone''"
  proof -
    have "issues (milestones g ! 0) = iss"
      using groupsOf_single_issues [OF assms(1) all] by (simp only: ms)
    moreover have "length (milestones g) = 1 \<and> label (milestones g ! 0) = ''No Milestone''"
      using single all by blast
    ultimately show ?thesis
      by (simp add: bt flatten_def)
  qed
  with single show ?thesis
    by (simp only: bt flatten_def) blast
qed

lemma milestoneLabel_exIssue_None: "milestoneLabel (exIssue n None) = ''No Milestone''"
  by (simp add: milestoneLabel_def exIssue_def exItem_def toIssue_def newIssue_def Let_def)

lemma buildTree_flattens_witness:
  "groupIssues emptyGrouping [exIssue 1 None, exIssue 2 None, exIssue 3 None]
     = Inr \<lparr>milestoneIndex = (\<lambda>_. None)(''No Milestone'' \<mapsto> 0),
            milestones = [\<lparr>label = ''No Milestone'', collapsibleState = Expanded,
              issues = [exIssue 1 None, exIssue 2 None, exIssue 3 None]\<rparr>]\<rparr>
   \<and> buildTree [exIssue 1 None, exIssue 2 None, exIssue 3 None] []
     = Inr [IssueNode (exIssue 1 None), IssueNode (exIssue 2 None), IssueNode (exIssue 3 None)]"
proof -
  let ?iss = "[exIssue 1 None, exIssue 2 None, exIssue 3 None]"
  let ?g = "\<lparr>milestoneIndex = (\<lambda>_. None)(''No Milestone'' \<mapsto> 0),
            milestones = [\<lparr>label = ''No Milestone'', collapsibleState = Expanded, issues = ?iss\<rparr>]\<rparr>"
  have g: "groupIssues emptyGrouping ?iss = Inr ?g"
    by (simp add: groupIssue_def emptyGrouping_def milestoneLabel_exIssue_None Let_def
        objectPrototypeKeys_def pushIssue_def newMilestone_def)
  have ne: "?iss \<noteq> []" by simp
  have "(\<forall>i\<in>set ?iss. milestoneLabel i = ''No Milestone'')
          \<longrightarrow> buildTree ?iss [] = Inr (map IssueNode ?iss)"
    using buildTree_flattens_single_No_Milestone_group [OF ne g, of "[]"] by blast
  then have "buildTree ?iss [] = Inr (map IssueNode ?iss)"
    by (simp add: milestoneLabel_exIssue_None)
  with g show ?thesis by simp
qed

text \<open>
  C3. An issue whose milestone is titled \<^verbatim>\<open>constructor\<close> is not grouped: the lookup
  \<^verbatim>\<open>milestoneIndex[milestoneLabel]\<close> finds the inherited \<^verbatim>\<open>Object.prototype.constructor\<close>,
  no group is created, and the push onto its missing \<^verbatim>\<open>issues\<close> throws.
\<close>

theorem buildTree_prototype_key_TypeError:
  "buildTree [exIssue 1 (Some ''constructor'')] [] = Inl typeError"
  by (simp add: buildTree_def groupIssue_def emptyGrouping_def milestoneLabel_def exIssue_def
      exItem_def toIssue_def newIssue_def Let_def objectPrototypeKeys_def)

text \<open>
  C4. A list of an issue without a milestone and an issue whose milestone is titled
  \<^verbatim>\<open>toString\<close> is not the case of the single group \<^verbatim>\<open>No Milestone\<close>: grouped by
  label it has the two groups \<^verbatim>\<open>No Milestone\<close> and \<^verbatim>\<open>toString\<close>. The tree builder
  does not return the list of these two group nodes: the second lookup finds the inherited
  \<^verbatim>\<open>Object.prototype.toString\<close> and the builder throws.
\<close>

theorem buildTree_other_case_TypeError:
  "map label (groupsOf [exIssue 1 None, exIssue 2 (Some ''toString'')])
     = [''No Milestone'', ''toString'']
   \<and> buildTree [exIssue 1 None, exIssue 2 (Some ''toString'')] [] = Inl typeError"
  by (simp add: buildTree_def groupIssue_def emptyGrouping_def milestoneLabel_def exIssue_def
      exItem_def toIssue_def newIssue_def Let_def objectPrototypeKeys_def groupsOf_def
      groupOf_def)

subsection \<open>The loop over the remotes\<close>

lemma searchMilestones_char:
  "searchMilestones e r ms iss =
     (iss @ concat (map (searchResults e r) (takeWhile (searchSucceeds e r) ms)),
      snd (searchMilestones e r ms []))"
proof (induction ms arbitrary: iss)
  case Nil
  then show ?case by simp
next
  case (Cons m ms)
  show ?case
  proof (cases "searchIssues e (searchParams r m)")
    case (Inl err)
    then show ?thesis by (simp add: searchSucceeds_def)
  next
    case (Inr items)
    then show ?thesis
      using Cons.IH [of "iss @ map toIssue items"] Cons.IH [of "map toIssue items"]
      by (simp add: searchSucceeds_def searchResults_def)
  qed
qed

lemma tryRemote_char:
  "tryRemote e r iss = (iss @ remoteIssues e r, remoteError e r)"
proof (cases "getCurrentMilestones e r")
  case (Inl err)
  then show ?thesis
    by (simp add: tryRemote_def remoteIssues_def remoteError_def milestonePasses_def)
next
  case (Inr ms)
  then show ?thesis
    using searchMilestones_char [of e r "if ms = [] then [None] else map Some ms" iss]
    by (simp add: tryRemote_def remoteIssues_def remoteError_def milestonePasses_def)
qed

lemma aggregate_char:
  "aggregate e remotes iss errs =
     (case find (abortsOn e) remotes of
        Some r \<Rightarrow> Inl (the (remoteError e r))
      | None \<Rightarrow> Inr (iss @ concat (map (remoteIssues e) remotes),
                     errs @ map cannotAccess (filter (\<lambda>r. remoteError e r \<noteq> None) remotes)))"
proof (induction remotes arbitrary: iss errs)
  case Nil
  then show ?case by simp
next
  case (Cons r remotes)
  show ?case
  proof (cases "remoteError e r")
    case None
    then show ?thesis
      using Cons.IH [of "iss @ remoteIssues e r" errs]
      by (simp add: tryRemote_char abortsOn_def split: option.splits)
  next
    case (Some err)
    then show ?thesis
      using Cons.IH [of "iss @ remoteIssues e r" "errs @ [cannotAccess r]"]
      by (simp add: tryRemote_char abortsOn_def split: option.splits)
  qed
qed



lemma remoteIssues_tryRemote: "remoteIssues e r = fst (tryRemote e r [])"
  by (simp add: tryRemote_char)

lemma remoteIssues_nil_listing:
  "getCurrentMilestones e r = Inl err \<Longrightarrow> remoteIssues e r = [] \<and> remoteError e r = Some err"
  by (simp add: remoteIssues_def remoteError_def milestonePasses_def tryRemote_def)

lemma remoteIssues_nil_first_search:
  "milestonePasses e r = m # ms \<Longrightarrow> \<not> searchSucceeds e r m \<Longrightarrow> remoteIssues e r = []"
  by (simp add: remoteIssues_def)

lemma filter_raises404:
  assumes "find (abortsOn e) remotes = None"
  shows "filter (\<lambda>r. remoteError e r \<noteq> None) remotes = filter (raises404 e) remotes"
proof (rule filter_cong [OF refl])
  fix r assume "r \<in> set remotes"
  with assms have "\<not> abortsOn e r" by (auto simp: find_None_iff)
  then show "(remoteError e r \<noteq> None) = raises404 e r"
    by (auto simp: abortsOn_def raises404_def split: option.splits)
qed

text \<open>
  C2, as amended. The aggregation throws the error of the first remote whose processing
  raises an error that is not 404-class, and returns nothing else then. Otherwise it
  returns one message \<^verbatim>\<open>Cannot access {owner}/{repo}\<close> for each remote whose processing
  raised a 404-class error, and the issues of every remote, in remote order: what a remote
  adds are the results of its searches that returned before its error, if any. That is
  nothing when the listing of the milestones raised the error, or the first search did.
\<close>

theorem aggregate_errors:
  "aggregate e remotes [] [] =
     (case find (abortsOn e) remotes of
        Some r \<Rightarrow> Inl (the (remoteError e r))
      | None \<Rightarrow> Inr (concat (map (remoteIssues e) remotes),
                     map cannotAccess (filter (raises404 e) remotes)))
   \<and> (getCurrentMilestones e r = Inl err \<longrightarrow> remoteIssues e r = [] \<and> remoteError e r = Some err)
   \<and> (\<forall>m ms. milestonePasses e r = m # ms \<longrightarrow> \<not> searchSucceeds e r m \<longrightarrow> remoteIssues e r = [])"
proof (intro conjI)
  show "aggregate e remotes [] [] =
     (case find (abortsOn e) remotes of
        Some r \<Rightarrow> Inl (the (remoteError e r))
      | None \<Rightarrow> Inr (concat (map (remoteIssues e) remotes),
                     map cannotAccess (filter (raises404 e) remotes)))"
    using filter_raises404 [of e remotes]
    by (simp add: aggregate_char split: option.splits)
  show "getCurrentMilestones e r = Inl err \<longrightarrow> remoteIssues e r = [] \<and> remoteError e r = Some err"
    using remoteIssues_nil_listing by blast
  show "\<forall>m ms. milestonePasses e r = m # ms \<longrightarrow> \<not> searchSucceeds e r m \<longrightarrow> remoteIssues e r = []"
    using remoteIssues_nil_first_search by blast
qed

lemma exDateTime_A: "exDateTime ''2024-03-01'' = 20240301"
  by (simp add: exDateTime_def Let_def)

lemma exDateTime_C: "exDateTime ''2024-01-01'' = 20240101"
  by (simp add: exDateTime_def Let_def)

lemma selectMilestones_exEnv: "selectMilestones exEnv [exA, exB, exC] = [''C'', ''A'']"
  by (simp add: selectMilestones_def sortedMilestones_def sortBy_def compareMilestones_def
      compareDateStrings_def truthy_def exEnv_def exA_def exB_def exC_def exDateTime_A
      exDateTime_C Let_def)

lemma selectMilestones_exEnvLate404:
  "selectMilestones exEnvLate404 [exA, exB, exC] = [''C'', ''A'']"
  by (simp add: selectMilestones_def sortedMilestones_def sortBy_def compareMilestones_def
      compareDateStrings_def truthy_def exEnv_def exEnvLate404_def exA_def exB_def exC_def exDateTime_A
      exDateTime_C Let_def)

lemma getCurrentMilestones_exRemote: "getCurrentMilestones exEnv exRemote = Inr [''C'', ''A'']"
  using selectMilestones_exEnv by (simp add: getCurrentMilestones_def exRemote_def exEnv_def)

lemma getCurrentMilestones_exGone: "getCurrentMilestones exEnv exGone = Inl notFound"
  by (simp add: getCurrentMilestones_def exGone_def exEnv_def)

lemma searchQuery_exRemote_C:
  "searchQuery exRemote (Some ''C'') =
     ''repo:acme/widgets is:open assignee:octocat milestone:'' @ [CHR 0x22] @ ''C'' @ [CHR 0x22]"
  by (simp add: searchQuery_def exRemote_def truthy_def)

lemma searchQuery_exRemote_A:
  "searchQuery exRemote (Some ''A'') =
     ''repo:acme/widgets is:open assignee:octocat milestone:'' @ [CHR 0x22] @ ''A'' @ [CHR 0x22]"
  by (simp add: searchQuery_def exRemote_def truthy_def)

lemma searchIssues_exEnv_C:
  "searchIssues exEnv (searchParams exRemote (Some ''C'')) = Inr [exItem 1 (Some ''C'')]"
  by (simp add: exEnv_def searchParams_def searchQuery_exRemote_C)

lemma searchIssues_exEnv_A:
  "searchIssues exEnv (searchParams exRemote (Some ''A'')) =
     Inr [exItem 2 (Some ''A''), exItem 3 (Some ''A'')]"
  by (simp add: exEnv_def searchParams_def searchQuery_exRemote_A)

lemma searchIssues_exEnvLate404_C:
  "searchIssues exEnvLate404 (searchParams exRemote (Some ''C'')) = Inr [exItem 1 (Some ''C'')]"
  by (simp add: exEnvLate404_def searchParams_def searchQuery_exRemote_C)

lemma searchIssues_exEnvLate404_A:
  "searchIssues exEnvLate404 (searchParams exRemote (Some ''A'')) = Inl notFound"
  by (simp add: exEnvLate404_def searchParams_def searchQuery_exRemote_A)

lemma tryRemote_exRemote:
  "tryRemote exEnv exRemote [] =
     ([exIssue 1 (Some ''C''), exIssue 2 (Some ''A''), exIssue 3 (Some ''A'')], None)"
  by (simp add: tryRemote_def getCurrentMilestones_exRemote searchIssues_exEnv_C
      searchIssues_exEnv_A exIssue_def)

lemma tryRemote_exGone: "tryRemote exEnv exGone [] = ([], Some notFound)"
  by (simp add: tryRemote_def getCurrentMilestones_exGone)

lemma tryRemote_late404:
  "tryRemote exEnvLate404 exRemote [] = ([exIssue 1 (Some ''C'')], Some notFound)"
proof -
  have "getCurrentMilestones exEnvLate404 exRemote = Inr [''C'', ''A'']"
    using selectMilestones_exEnvLate404
    by (simp add: getCurrentMilestones_def exRemote_def exEnv_def exEnvLate404_def)
  then show ?thesis
    by (simp add: tryRemote_def searchIssues_exEnvLate404_C searchIssues_exEnvLate404_A
        exIssue_def)
qed

theorem aggregate_errors_witness:
  "getCurrentMilestones exEnv exGone = Inl notFound
   \<and> remoteIssues exEnv exGone = []
   \<and> aggregate exEnv [exGone, exRemote] [] [] =
       Inr ([exIssue 1 (Some ''C''), exIssue 2 (Some ''A''), exIssue 3 (Some ''A'')],
            [cannotAccess exGone])"
proof -
  have "remoteError exEnv exGone = Some notFound" "remoteError exEnv exRemote = None"
    by (simp_all add: remoteError_def tryRemote_exGone tryRemote_exRemote)
  then have "\<not> abortsOn exEnv exGone" "\<not> abortsOn exEnv exRemote"
    "raises404 exEnv exGone" "\<not> raises404 exEnv exRemote"
    by (simp_all add: abortsOn_def raises404_def notFound_def)
  then show ?thesis
    using aggregate_errors [of exEnv "[exGone, exRemote]" exGone notFound]
    by (simp add: getCurrentMilestones_exGone remoteIssues_tryRemote tryRemote_exRemote)
qed

text \<open>
  Against C2 as stated: a remote with two current milestones, whose second search is
  answered with 404, raises a 404-class error and still adds the issue of its first
  search to the aggregated list.
\<close>

theorem aggregate_late_404_keeps_issues:
  "remoteError exEnvLate404 exRemote = Some notFound
   \<and> code notFound = Some 404
   \<and> aggregate exEnvLate404 [exRemote] [] [] =
       Inr ([exIssue 1 (Some ''C'')], [cannotAccess exRemote])"
  by (simp add: remoteError_def tryRemote_late404 notFound_def)


text \<open>
  C5. The query of a remote and a pass is \<^verbatim>\<open>repo:{owner}/{repo} is:open\<close>, followed by
  \<^verbatim>\<open> assignee:{username}\<close> exactly when the user name is not empty, followed by
  \<^verbatim>\<open> milestone:"{title}"\<close> exactly when the pass has a milestone (whose title is not
  empty); the search asks for 100 results per page, sorted by \<^verbatim>\<open>created\<close> in order
  \<^verbatim>\<open>asc\<close>; and when no remote raises an error that is not 404-class, the aggregation
  returns the issues in remote order, then in the order of the passes of a remote, then in
  the order of the results of a search.
\<close>

theorem search_queries_and_issue_order:
  "(m \<noteq> Some [] \<longrightarrow>
      searchQuery r m =
        ''repo:'' @ owner r @ ''/'' @ repo r @ '' is:open''
        @ (if username r \<noteq> [] then '' assignee:'' @ username r else [])
        @ (case m of None \<Rightarrow> [] | Some t \<Rightarrow> '' milestone:'' @ [CHR 0x22] @ t @ [CHR 0x22]))
   \<and> searchParams r m =
        \<lparr>q = searchQuery r m, sort_param = ''created'', order_param = ''asc'', per_page = 100\<rparr>
   \<and> ((\<forall>x\<in>set remotes. \<not> abortsOn e x) \<longrightarrow>
        (\<exists>errs. aggregate e remotes [] [] =
           Inr (concat (map (\<lambda>x. concat (map (searchResults e x)
                    (takeWhile (searchSucceeds e x) (milestonePasses e x)))) remotes),
                errs)))"
proof (intro conjI impI)
  assume "m \<noteq> Some []"
  then show "searchQuery r m =
        ''repo:'' @ owner r @ ''/'' @ repo r @ '' is:open''
        @ (if username r \<noteq> [] then '' assignee:'' @ username r else [])
        @ (case m of None \<Rightarrow> [] | Some t \<Rightarrow> '' milestone:'' @ [CHR 0x22] @ t @ [CHR 0x22])"
    by (cases m) (simp_all add: searchQuery_def truthy_def)
next
  show "searchParams r m =
        \<lparr>q = searchQuery r m, sort_param = ''created'', order_param = ''asc'', per_page = 100\<rparr>"
    by (simp add: searchParams_def)
next
  assume "\<forall>x\<in>set remotes. \<not> abortsOn e x"
  then have "find (abortsOn e) remotes = None"
    by (simp add: find_None_iff)
  then have "aggregate e remotes [] [] =
      Inr (concat (map (remoteIssues e) remotes),
           map cannotAccess (filter (\<lambda>x. remoteError e x \<noteq> None) remotes))"
    by (simp add: aggregate_char)
  moreover have "remoteIssues e = (\<lambda>x. concat (map (searchResults e x)
                    (takeWhile (searchSucceeds e x) (milestonePasses e x))))"
    by (rule ext) (simp add: remoteIssues_def)
  ultimately show "\<exists>errs. aggregate e remotes [] [] =
           Inr (concat (map (\<lambda>x. concat (map (searchResults e x)
                    (takeWhile (searchSucceeds e x) (milestonePasses e x)))) remotes),
                errs)"
    by simp
qed

theorem search_queries_and_issue_order_witness:
  "searchQuery exRemote (Some ''C'') =
     ''repo:acme/widgets is:open assignee:octocat milestone:'' @ [CHR 0x22] @ ''C'' @ [CHR 0x22]
   \<and> milestonePasses exEnv exRemote = [Some ''C'', Some ''A'']
   \<and> (\<exists>errs. aggregate exEnv [exGone, exRemote] [] [] =
        Inr ([exIssue 1 (Some ''C''), exIssue 2 (Some ''A''), exIssue 3 (Some ''A'')], errs))"
proof -
  have "remoteError exEnv exGone = Some notFound" "remoteError exEnv exRemote = None"
    by (simp_all add: remoteError_def tryRemote_exGone tryRemote_exRemote)
  then have ok: "\<forall>x\<in>set [exGone, exRemote]. \<not> abortsOn exEnv x"
    by (simp add: abortsOn_def notFound_def)
  have passes: "milestonePasses exEnv exRemote = [Some ''C'', Some ''A'']"
    "milestonePasses exEnv exGone = []"
    by (simp_all add: milestonePasses_def getCurrentMilestones_exRemote getCurrentMilestones_exGone)
  have res: "searchSucceeds exEnv exRemote (Some ''C'')" "searchSucceeds exEnv exRemote (Some ''A'')"
    "searchResults exEnv exRemote (Some ''C'') = [exIssue 1 (Some ''C'')]"
    "searchResults exEnv exRemote (Some ''A'') = [exIssue 2 (Some ''A''), exIssue 3 (Some ''A'')]"
    by (simp_all add: searchSucceeds_def searchResults_def searchIssues_exEnv_C
        searchIssues_exEnv_A exIssue_def)
  have q: "searchQuery exRemote (Some ''C'') =
     ''repo:acme/widgets is:open assignee:octocat milestone:'' @ [CHR 0x22] @ ''C'' @ [CHR 0x22]"
    using search_queries_and_issue_order [of "Some ''C''" exRemote "[exGone, exRemote]" exEnv]
    by (simp add: exRemote_def)
  have "\<exists>errs. aggregate exEnv [exGone, exRemote] [] [] =
        Inr ([exIssue 1 (Some ''C''), exIssue 2 (Some ''A''), exIssue 3 (Some ''A'')], errs)"
    using search_queries_and_issue_order [of "Some ''C''" exRemote "[exGone, exRemote]" exEnv] ok
    by (simp add: passes res)
  with q passes show ?thesis by simp
qed

subsection \<open>The milestone selector\<close>

lemma mset_insertBy: "mset (insertBy c x ys) = add_mset x (mset ys)"
  by (induction ys) auto

lemma mset_sortBy: "mset (sortBy c xs) = mset xs"
  by (induction xs) (auto simp: sortBy_def mset_insertBy)

lemma set_insertBy: "set (insertBy c x ys) = insert x (set ys)"
  by (induction ys) auto

lemma sorted_insertBy:
  assumes total: "\<And>a b. c a b \<le> 0 \<or> c b a \<le> 0"
      and trans: "\<And>a b d. c a b \<le> 0 \<Longrightarrow> c b d \<le> 0 \<Longrightarrow> c a d \<le> 0"
  shows "sorted_wrt (\<lambda>a b. c a b \<le> 0) ys \<Longrightarrow> sorted_wrt (\<lambda>a b. c a b \<le> 0) (insertBy c x ys)"
proof (induction ys)
  case Nil
  then show ?case by simp
next
  case (Cons y ys)
  show ?case
  proof (cases "c x y \<le> 0")
    case True
    with Cons.prems trans show ?thesis by auto
  next
    case False
    with total [of x y] have "c y x \<le> 0" by simp
    with False Cons show ?thesis by (auto simp: set_insertBy)
  qed
qed

lemma sorted_sortBy:
  assumes total: "\<And>a b. c a b \<le> 0 \<or> c b a \<le> 0"
      and trans: "\<And>a b d. c a b \<le> 0 \<Longrightarrow> c b d \<le> 0 \<Longrightarrow> c a d \<le> 0"
  shows "sorted_wrt (\<lambda>a b. c a b \<le> 0) (sortBy c xs)"
proof (induction xs)
  case Nil
  then show ?case by (simp add: sortBy_def)
next
  case (Cons x xs)
  then show ?case
    using sorted_insertBy [of c "sortBy c xs" x, OF total trans] by (simp add: sortBy_def)
qed

lemma compareMilestones_le_iff:
  "compareMilestones e a b \<le> 0 \<longleftrightarrow> milestoneBefore e a b"
  by (auto simp: compareMilestones_def compareDateStrings_def milestoneBefore_def Let_def)

lemma milestoneBefore_total:
  assumes "consistentCompare (localeCompare e)"
  shows "milestoneBefore e a b \<or> milestoneBefore e b a"
proof -
  from assms have "localeCompare e (title a) (title b) \<le> 0 \<or> localeCompare e (title b) (title a) \<le> 0"
    unfolding consistentCompare_def by blast
  then show ?thesis
    unfolding milestoneBefore_def by auto
qed

lemma milestoneBefore_trans:
  assumes "consistentCompare (localeCompare e)"
      and ab: "milestoneBefore e a b" and bd: "milestoneBefore e b d"
  shows "milestoneBefore e a d"
proof -
  from assms(1) have t: "localeCompare e (title a) (title b) \<le> 0 \<Longrightarrow>
      localeCompare e (title b) (title d) \<le> 0 \<Longrightarrow> localeCompare e (title a) (title d) \<le> 0"
    unfolding consistentCompare_def by blast
  show ?thesis
  proof (cases "truthy (due_on a)")
    case True
    note ta = this
    show ?thesis
    proof (cases "truthy (due_on d)")
      case True
      with ta ab bd have tb: "truthy (due_on b)"
        by (auto simp: milestoneBefore_def split: if_splits)
      with ta True ab bd t show ?thesis
        by (auto simp: milestoneBefore_def)
    next
      case False
      with ta show ?thesis by (simp add: milestoneBefore_def)
    qed
  next
    case False
    with ab have nb: "\<not> truthy (due_on b)"
      by (auto simp: milestoneBefore_def split: if_splits)
    with bd have nd: "\<not> truthy (due_on d)"
      by (auto simp: milestoneBefore_def split: if_splits)
    with False nb ab bd t show ?thesis
      by (simp add: milestoneBefore_def)
  qed
qed

lemma sorted_sortedMilestones:
  assumes "consistentCompare (localeCompare e)"
  shows "sorted_wrt (milestoneBefore e) (sortedMilestones e ms)"
proof -
  have "sorted_wrt (\<lambda>a b. compareMilestones e a b \<le> 0) (sortBy (compareMilestones e) ms)"
    by (rule sorted_sortBy)
       (use assms milestoneBefore_total milestoneBefore_trans in \<open>auto simp: compareMilestones_le_iff\<close>)
  then show ?thesis
    by (simp add: sortedMilestones_def compareMilestones_le_iff)
qed


lemma hd_sorted_dated_iff:
  assumes "sorted_wrt (milestoneBefore e) xs"
  shows "(xs \<noteq> [] \<and> truthy (due_on (hd xs))) = (\<exists>m\<in>set xs. truthy (due_on m))"
proof (cases xs)
  case Nil
  then show ?thesis by simp
next
  case (Cons x rest)
  with assms have "\<forall>y\<in>set rest. milestoneBefore e x y" by simp
  then have "\<not> truthy (due_on x) \<Longrightarrow> \<forall>y\<in>set rest. \<not> truthy (due_on y)"
    by (auto simp: milestoneBefore_def split: if_splits)
  with Cons show ?thesis by auto
qed

lemma compareCodeUnits_total: "compareCodeUnits a b \<le> 0 \<or> compareCodeUnits b a \<le> 0"
  by (induction a b rule: compareCodeUnits.induct) auto

lemma compareCodeUnits_trans:
  "compareCodeUnits a b \<le> 0 \<Longrightarrow> compareCodeUnits b d \<le> 0 \<Longrightarrow> compareCodeUnits a d \<le> 0"
proof (induction a b arbitrary: d rule: compareCodeUnits.induct)
  case 1
  then show ?case by simp
next
  case (2 y ys)
  then show ?case by (cases d) auto
next
  case (3 x xs)
  then show ?case by simp
next
  case (4 x xs y ys)
  show ?case
  proof (cases d)
    case Nil
    with 4 show ?thesis by simp
  next
    case (Cons z zs)
    with "4.prems" "4.IH" [of zs] show ?thesis
      by (auto split: if_splits)
  qed
qed

lemma consistentCompare_compareCodeUnits: "consistentCompare compareCodeUnits"
  unfolding consistentCompare_def
  using compareCodeUnits_total compareCodeUnits_trans by blast

text \<open>
  C1. Given a consistent \<^verbatim>\<open>localeCompare\<close>, the selector sorts the fetched milestones
  (the sorted list is a permutation of the fetched one) ascending by due date, a missing
  due date after every present one and the title comparison deciding ties; the first
  milestone of the sorted list has a due date exactly when some milestone has one; exactly
  in that case the milestones without a due date are removed; and the titles of the first
  two milestones of the resulting list are returned. For the milestones A (due
  2024-03-01), B (no due date), C (due 2024-01-01) the result is C, A; for the undated
  milestones Z, A it is A, Z.
\<close>

theorem selectMilestones_sorts_filters_takes_two:
  assumes "consistentCompare (localeCompare e)"
  shows "mset (sortedMilestones e ms) = mset ms
     \<and> sorted_wrt (milestoneBefore e) (sortedMilestones e ms)
     \<and> ((sortedMilestones e ms \<noteq> [] \<and> truthy (due_on (hd (sortedMilestones e ms))))
          = (\<exists>m\<in>set ms. truthy (due_on m)))
     \<and> selectMilestones e ms =
         map title (take 2
           (if sortedMilestones e ms \<noteq> [] \<and> truthy (due_on (hd (sortedMilestones e ms)))
            then filter (\<lambda>m. truthy (due_on m)) (sortedMilestones e ms)
            else sortedMilestones e ms))
     \<and> (dateTime e ''2024-01-01'' < dateTime e ''2024-03-01''
          \<longrightarrow> selectMilestones e [exA, exB, exC] = [''C'', ''A''])
     \<and> (0 < localeCompare e ''Z'' ''A''
          \<longrightarrow> selectMilestones e [exUndatedZ, exUndatedA] = [''A'', ''Z''])"
proof (intro conjI impI)
  show m: "mset (sortedMilestones e ms) = mset ms"
    by (simp add: sortedMilestones_def mset_sortBy)
  show s: "sorted_wrt (milestoneBefore e) (sortedMilestones e ms)"
    using assms by (rule sorted_sortedMilestones)
  have "set (sortedMilestones e ms) = set ms"
    using m by (rule mset_eq_setD)
  with hd_sorted_dated_iff [OF s]
  show "(sortedMilestones e ms \<noteq> [] \<and> truthy (due_on (hd (sortedMilestones e ms))))
          = (\<exists>m\<in>set ms. truthy (due_on m))"
    by simp
  show "selectMilestones e ms =
         map title (take 2
           (if sortedMilestones e ms \<noteq> [] \<and> truthy (due_on (hd (sortedMilestones e ms)))
            then filter (\<lambda>m. truthy (due_on m)) (sortedMilestones e ms)
            else sortedMilestones e ms))"
    by (cases "sortedMilestones e ms") (simp_all add: selectMilestones_def Let_def)
next
  assume "dateTime e ''2024-01-01'' < dateTime e ''2024-03-01''"
  then show "selectMilestones e [exA, exB, exC] = [''C'', ''A'']"
    by (simp add: selectMilestones_def sortedMilestones_def sortBy_def compareMilestones_def
        compareDateStrings_def truthy_def exA_def exB_def exC_def Let_def)
next
  assume "0 < localeCompare e ''Z'' ''A''"
  then show "selectMilestones e [exUndatedZ, exUndatedA] = [''A'', ''Z'']"
    by (simp add: selectMilestones_def sortedMilestones_def sortBy_def compareMilestones_def
        compareDateStrings_def truthy_def exUndatedZ_def exUndatedA_def Let_def)
qed

theorem selectMilestones_witness:
  "consistentCompare (localeCompare exEnv)
   \<and> dateTime exEnv ''2024-01-01'' < dateTime exEnv ''2024-03-01''
   \<and> 0 < localeCompare exEnv ''Z'' ''A''
   \<and> selectMilestones exEnv [exA, exB, exC] = [''C'', ''A'']
   \<and> selectMilestones exEnv [exUndatedZ, exUndatedA] = [''A'', ''Z'']"
proof -
  have c: "consistentCompare (localeCompare exEnv)"
    by (simp add: exEnv_def consistentCompare_compareCodeUnits)
  have d: "dateTime exEnv ''2024-01-01'' < dateTime exEnv ''2024-03-01''"
    by (simp add: exEnv_def exDateTime_A exDateTime_C)
  have l: "0 < localeCompare exEnv ''Z'' ''A''"
    by (simp add: exEnv_def)
  from selectMilestones_sorts_filters_takes_two [OF c, of "[]"] c d l show ?thesis
    by blast
qed

subsection \<open>The tree provider\<close>

lemma providerInv_initial: "providerInv initial"
  by (simp add: providerInv_def initial_def)

lemma providerInv_startBuild:
  assumes "providerInv s" "children s = None"
  shows "providerInv (s\<lparr>fetching := True, lastFetch := Some now,
              children := Some (length (promises s)),
              promises := promises s @ [Pending]\<rparr>)"
proof -
  from assms have nf: "\<not> fetching s" and np: "\<forall>p < length (promises s). promises s ! p \<noteq> Pending"
    by (auto simp: providerInv_def)
  then show ?thesis
    by (simp add: providerInv_def nth_append less_Suc_eq)
qed


lemma providerInv_getChildren:
  assumes "providerInv s"
  shows "providerInv (getChildren element now s)"
proof (cases "children s = None \<and> (\<forall>m. element \<noteq> Some (MilestoneNode m))")
  case True
  then have "getChildren element now s = s\<lparr>fetching := True, lastFetch := Some now,
              children := Some (length (promises s)),
              promises := promises s @ [Pending]\<rparr>"
    by (simp add: getChildren_def split: option.splits node.splits)
  with providerInv_startBuild [OF assms, of now] True show ?thesis by simp
next
  case False
  then have "getChildren element now s = s"
    by (auto simp: getChildren_def split: option.splits node.splits)
  with assms show ?thesis by simp
qed

lemma providerInv_clear:
  assumes "providerInv s" "\<not> fetching s"
  shows "providerInv (s\<lparr>children := None\<rparr>)"
  using assms by (simp add: providerInv_def)

lemma providerInv_awaiting: "providerInv (s\<lparr>awaiting := a\<rparr>) = providerInv s"
  by (simp add: providerInv_def)

lemma providerInv_refresh:
  assumes "providerInv s"
  shows "providerInv (refresh now s)"
proof (cases "fetching s")
  case True
  with assms show ?thesis by (simp add: refresh_def)
next
  case False
  have "providerInv (getChildren None now (s\<lparr>children := None\<rparr>))"
    by (intro providerInv_getChildren providerInv_clear assms False)
  then show ?thesis
    using False by (simp add: refresh_def Let_def providerInv_awaiting split: option.splits)
qed

lemma providerInv_poll: "providerInv s \<Longrightarrow> providerInv (poll now s)"
  by (simp add: poll_def providerInv_refresh)


lemma pending_unique:
  assumes "providerInv s" "p < length (promises s)" "promises s ! p = Pending"
  shows "fetching s" "children s = Some p"
    "\<And>p'. p' < length (promises s) \<Longrightarrow> promises s ! p' = Pending \<Longrightarrow> p' = p"
proof -
  from assms(1) have all: "\<And>k. k < length (promises s) \<Longrightarrow> promises s ! k = Pending \<Longrightarrow>
      fetching s \<and> children s = Some k"
    unfolding providerInv_def by blast
  from all [OF assms(2,3)] show "fetching s" and c: "children s = Some p"
    by blast+
  fix p' assume "p' < length (promises s)" "promises s ! p' = Pending"
  from all [OF this] have "children s = Some p'" by blast
  with c show "p' = p" by simp
qed

lemma no_pending_after_settle:
  assumes "providerInv s" "p < length (promises s)" "promises s ! p = Pending" "x \<noteq> Pending"
  shows "\<forall>p' < length (promises s). (promises s)[p := x] ! p' \<noteq> Pending"
proof (intro allI impI)
  fix p' assume p': "p' < length (promises s)"
  show "(promises s)[p := x] ! p' \<noteq> Pending"
  proof (cases "p' = p")
    case True
    with assms p' show ?thesis by simp
  next
    case False
    with pending_unique(3) [OF assms(1-3) p'] have "promises s ! p' \<noteq> Pending" by blast
    with False show ?thesis by simp
  qed
qed

lemma providerInvI:
  assumes "\<forall>p < length (promises s). promises s ! p = Pending \<longrightarrow> fetching s \<and> children s = Some p"
      and "\<forall>p. children s = Some p \<longrightarrow> p < length (promises s)"
      and "fetching s \<longrightarrow> children s \<noteq> None"
      and "(lastFetch s = None) = (promises s = [])"
  shows "providerInv s"
  using assms unfolding providerInv_def by blast

lemma providerInv_settle:
  assumes "providerInv s"
  shows "providerInv (settle p outcome s)"
proof (cases "p < length (promises s) \<and> promises s ! p = Pending")
  case False
  then have "settle p outcome s = s" by (auto simp: settle_def)
  with assms show ?thesis by simp
next
  case True
  then have p: "p < length (promises s)" "promises s ! p = Pending" by simp_all
  note u = pending_unique(1,2) [OF assms p]
  from assms have c: "\<forall>p'. children s = Some p' \<longrightarrow> p' < length (promises s)"
    and l: "(lastFetch s = None) = (promises s = [])"
    unfolding providerInv_def by blast+
  show ?thesis
  proof (cases outcome)
    case (Inl err)
    have n: "\<forall>p' < length (promises s). (promises s)[p := Rejected err] ! p' \<noteq> Pending"
      by (rule no_pending_after_settle [OF assms p]) simp
    have eq: "settle p outcome s =
        s\<lparr>promises := (promises s)[p := Rejected err], awaiting := removeAll p (awaiting s)\<rparr>"
      using True Inl by (simp add: settle_def)
    show ?thesis
      unfolding eq
    proof (rule providerInvI)
      show "(lastFetch (s\<lparr>promises := (promises s)[p := Rejected err], awaiting := removeAll p (awaiting s)\<rparr>) = None)
            = (promises (s\<lparr>promises := (promises s)[p := Rejected err], awaiting := removeAll p (awaiting s)\<rparr>) = [])"
        using l by simp
    qed (use n u c in simp_all)
  next
    case (Inr tree)
    have n: "\<forall>p' < length (promises s). (promises s)[p := Fulfilled tree] ! p' \<noteq> Pending"
      by (rule no_pending_after_settle [OF assms p]) simp
    have eq: "settle p outcome s =
        s\<lparr>promises := (promises s)[p := Fulfilled tree], fetching := False,
               fired := fired s + count_list (awaiting s) p,
               awaiting := removeAll p (awaiting s)\<rparr>"
      using True Inr by (simp add: settle_def)
    show ?thesis
      unfolding eq
    proof (rule providerInvI)
      show "(lastFetch (s\<lparr>promises := (promises s)[p := Fulfilled tree], fetching := False,
               fired := fired s + count_list (awaiting s) p,
               awaiting := removeAll p (awaiting s)\<rparr>) = None)
            = (promises (s\<lparr>promises := (promises s)[p := Fulfilled tree], fetching := False,
               fired := fired s + count_list (awaiting s) p,
               awaiting := removeAll p (awaiting s)\<rparr>) = [])"
        using l by simp
    qed (use n u c in simp_all)
  qed
qed

lemma providerInv_step:
  assumes "providerInv s"
  shows "providerInv (step ev s)"
proof -
  obtain now e where ev: "ev = (now, e)" by (cases ev)
  show ?thesis
  proof (cases e)
    case (GetChildren element)
    with assms ev show ?thesis by (simp add: providerInv_getChildren)
  next
    case Refresh
    with assms ev show ?thesis by (simp add: providerInv_refresh)
  next
    case Poll
    with assms ev show ?thesis by (simp add: providerInv_poll)
  next
    case (Settle p outcome)
    with assms ev show ?thesis by (simp add: providerInv_settle)
  qed
qed

lemma reachable_providerInv: "reachable s \<Longrightarrow> providerInv s"
  by (induction rule: reachable.induct) (simp_all add: providerInv_initial providerInv_step)

lemma reachable_run: "reachable s \<Longrightarrow> reachable (run evs s)"
  unfolding run_def
  by (induction evs arbitrary: s) (simp_all add: reachable_step)


lemma inFlight_iff: "inFlight s = (\<exists>p < length (promises s). promises s ! p = Pending)"
  by (auto simp: inFlight_def in_set_conv_nth)

lemma inFlight_fetching: "providerInv s \<Longrightarrow> inFlight s \<Longrightarrow> fetching s"
  using pending_unique(1) by (auto simp: inFlight_iff)

lemma refresh_idle:
  "\<not> fetching s \<Longrightarrow>
   refresh now s = s\<lparr>fetching := True, lastFetch := Some now,
     children := Some (length (promises s)), promises := promises s @ [Pending],
     awaiting := awaiting s @ [length (promises s)]\<rparr>"
  by (simp add: refresh_def getChildren_def Let_def)

text \<open>
  C7. In every reachable state of the provider in which the busy flag is set,
  \<^verbatim>\<open>refresh\<close> changes nothing: the cached reference, the promises (no build is started)
  and the number of notifications fired stay as they are. The flag is set whenever a build
  is in flight, so \<^verbatim>\<open>refresh\<close> starts a build only when none is in flight; and when the
  flag is clear it does start one.
\<close>

theorem refresh_while_building_is_noop:
  assumes "reachable s"
  shows "(fetching s \<longrightarrow> refresh now s = s)
       \<and> (inFlight s \<longrightarrow> fetching s)
       \<and> (promises (refresh now s) \<noteq> promises s \<longrightarrow> \<not> fetching s \<and> \<not> inFlight s)
       \<and> (\<not> fetching s \<longrightarrow>
            promises (refresh now s) = promises s @ [Pending]
            \<and> children (refresh now s) = Some (length (promises s)))"
proof -
  have inv: "providerInv s" using assms by (rule reachable_providerInv)
  have busy: "fetching s \<longrightarrow> refresh now s = s" by (simp add: refresh_def)
  have fl: "inFlight s \<longrightarrow> fetching s" using inFlight_fetching [OF inv] by blast
  have idle: "\<not> fetching s \<longrightarrow>
            promises (refresh now s) = promises s @ [Pending]
            \<and> children (refresh now s) = Some (length (promises s))"
    by (simp add: refresh_idle)
  from busy fl idle show ?thesis by metis
qed

lemma run_Nil [simp]: "run [] s = s"
  by (simp add: run_def)

lemma run_Cons [simp]: "run (ev # evs) s = run evs (step ev s)"
  by (simp add: run_def)

lemma run_exBuilding:
  "run exBuilding initial =
     \<lparr>fetching = True, lastFetch = Some 1000, children = Some 0, promises = [Pending],
      awaiting = [], fired = 0\<rparr>"
  by (simp add: exBuilding_def initial_def getChildren_def)

theorem refresh_while_building_witness:
  "reachable (run exBuilding initial)
   \<and> fetching (run exBuilding initial)
   \<and> refresh 2000 (run exBuilding initial) = run exBuilding initial"
proof -
  have r: "reachable (run exBuilding initial)"
    by (intro reachable_run reachable_initial)
  have f: "fetching (run exBuilding initial)"
    by (simp add: run_exBuilding)
  with refresh_while_building_is_noop [OF r, of 2000] r show ?thesis by blast
qed

text \<open>
  C8, as amended. \<^verbatim>\<open>poll\<close> starts a build exactly when \<^verbatim>\<open>lastFetch\<close> is unset (or
  0) or more than 30 minutes back, and the busy flag is clear; in every other case it
  changes nothing. \<^verbatim>\<open>lastFetch\<close> is the time at which the last build was started, and
  in a reachable state it is unset exactly when no build was ever started.
\<close>

theorem poll_reruns_iff_stale_and_idle:
  "stale now s = (case lastFetch s of None \<Rightarrow> True | Some t \<Rightarrow> t = 0 \<or> t + 1800000 < now)
   \<and> (stale now s \<and> \<not> fetching s \<longrightarrow>
        promises (poll now s) = promises s @ [Pending]
        \<and> children (poll now s) = Some (length (promises s))
        \<and> fetching (poll now s) \<and> lastFetch (poll now s) = Some now)
   \<and> (\<not> (stale now s \<and> \<not> fetching s) \<longrightarrow> poll now s = s)
   \<and> (reachable s \<longrightarrow> (lastFetch s = None) = (promises s = []))"
proof (intro conjI impI)
  show "stale now s = (case lastFetch s of None \<Rightarrow> True | Some t \<Rightarrow> t = 0 \<or> t + 1800000 < now)"
    by (simp add: stale_def split: option.splits)
next
  assume a: "stale now s \<and> \<not> fetching s"
  then show "promises (poll now s) = promises s @ [Pending]"
    "children (poll now s) = Some (length (promises s))"
    "fetching (poll now s)" "lastFetch (poll now s) = Some now"
    by (simp_all add: poll_def refresh_idle)
next
  assume "\<not> (stale now s \<and> \<not> fetching s)"
  then show "poll now s = s"
    by (auto simp: poll_def refresh_def)
next
  assume "reachable s"
  then have "providerInv s" by (rule reachable_providerInv)
  then show "(lastFetch s = None) = (promises s = [])"
    unfolding providerInv_def by blast
qed

theorem poll_reruns_witness:
  "reachable initial \<and> stale 1000 initial \<and> \<not> fetching initial
   \<and> promises (poll 1000 initial) = [Pending]
   \<and> \<not> stale 2000 (run exBuilding initial)
   \<and> poll 2000 (run exBuilding initial) = run exBuilding initial"
proof -
  have a: "stale 1000 initial" "\<not> fetching initial" "promises initial = []"
    by (simp_all add: stale_def initial_def)
  have b: "\<not> stale 2000 (run exBuilding initial)"
    by (simp add: stale_def run_exBuilding)
  from poll_reruns_iff_stale_and_idle [of 1000 initial] a
  have "promises (poll 1000 initial) = [Pending]" by simp
  moreover from poll_reruns_iff_stale_and_idle [of 2000 "run exBuilding initial"] b
  have "poll 2000 (run exBuilding initial) = run exBuilding initial" by blast
  ultimately show ?thesis using a b reachable_initial by blast
qed

lemma run_exRefreshed:
  "run exRefreshed initial =
     \<lparr>fetching = True, lastFetch = Some 3000, children = Some 1,
      promises = [Fulfilled exTree, Pending], awaiting = [1], fired = 0\<rparr>"
  by (simp add: exRefreshed_def initial_def getChildren_def settle_def refresh_def Let_def)

lemma run_exSlowBuild:
  "run exSlowBuild initial =
     \<lparr>fetching = False, lastFetch = Some 1000, children = Some 0,
      promises = [Fulfilled exTree], awaiting = [], fired = 0\<rparr>"
  by (simp add: exSlowBuild_def initial_def getChildren_def settle_def)

text \<open>
  Against C8 as stated. A build returned at 2000 and a refresh started the next one at
  3000, which is still running: at 1862000, more than 30 minutes after the last completed
  build, \<^verbatim>\<open>poll\<close> changes nothing. And a build started at 1000 returned at 1501000: at
  1802000, less than 30 minutes after it completed, \<^verbatim>\<open>poll\<close> starts a new build.
\<close>

theorem poll_ignores_completion_time:
  "(2000::nat) + 30 * 60 * 1000 < 1862000
   \<and> poll 1862000 (run exRefreshed initial) = run exRefreshed initial
   \<and> \<not> ((1501000::nat) + 30 * 60 * 1000 < 1802000)
   \<and> promises (run exSlowBuild initial) = [Fulfilled exTree]
   \<and> promises (poll 1802000 (run exSlowBuild initial)) = [Fulfilled exTree, Pending]"
  by (simp add: run_exRefreshed run_exSlowBuild poll_def stale_def refresh_def getChildren_def Let_def)


lemma step_stuck:
  assumes "fetching s" "children s \<noteq> None" "\<not> inFlight s"
  shows "step ev s = s"
proof -
  obtain now e where ev: "ev = (now, e)" by (cases ev)
  show ?thesis
  proof (cases e)
    case (GetChildren element)
    with assms(2) ev show ?thesis
      by (auto simp: getChildren_def split: option.splits node.splits)
  next
    case Refresh
    with assms(1) ev show ?thesis by (simp add: refresh_def)
  next
    case Poll
    with assms(1) ev show ?thesis by (simp add: poll_def refresh_def)
  next
    case (Settle p outcome)
    with assms(3) ev show ?thesis by (auto simp: settle_def inFlight_iff)
  qed
qed

lemma run_stuck:
  assumes "fetching s" "children s \<noteq> None" "\<not> inFlight s"
  shows "run evs s = s"
  by (induction evs) (simp_all add: step_stuck [OF assms])

text \<open>
  C10. When the build in flight is rejected in a reachable state, the busy flag stays set
  and the cached reference stays the rejected promise; \<^verbatim>\<open>refresh\<close> and \<^verbatim>\<open>poll\<close>
  change nothing from then on, at any time, and no sequence of requests of the host,
  refreshes, focus changes and settlements changes the state again: no build is started
  after the failed one.
\<close>

theorem rejected_build_blocks_refresh:
  assumes "reachable s" and "p < length (promises s)" and "promises s ! p = Pending"
  shows "fetching (settle p (Inl err) s)
       \<and> children (settle p (Inl err) s) = Some p
       \<and> promises (settle p (Inl err) s) ! p = Rejected err
       \<and> refresh now (settle p (Inl err) s) = settle p (Inl err) s
       \<and> poll now (settle p (Inl err) s) = settle p (Inl err) s
       \<and> run evs (settle p (Inl err) s) = settle p (Inl err) s"
proof -
  let ?s = "settle p (Inl err) s"
  have inv: "providerInv s" using assms(1) by (rule reachable_providerInv)
  have eq: "?s = s\<lparr>promises := (promises s)[p := Rejected err],
      awaiting := removeAll p (awaiting s)\<rparr>"
    using assms(2,3) by (simp add: settle_def)
  have f: "fetching ?s" and c: "children ?s = Some p"
    using pending_unique(1,2) [OF inv assms(2,3)] by (simp_all add: eq)
  have r: "promises ?s ! p = Rejected err"
    using assms(2) by (simp add: eq)
  have "\<forall>p' < length (promises s). (promises s)[p := Rejected err] ! p' \<noteq> Pending"
    by (rule no_pending_after_settle [OF inv assms(2,3)]) simp
  then have n: "\<not> inFlight ?s"
    by (simp add: inFlight_iff eq)
  have c': "children ?s \<noteq> None" using c by simp
  have "refresh now ?s = ?s" using f by (simp add: refresh_def)
  moreover have "poll now ?s = ?s" using f by (simp add: poll_def refresh_def)
  moreover have "run evs ?s = ?s" using f c' n by (rule run_stuck)
  ultimately show ?thesis using f c r by blast
qed

lemma run_append: "run (evs @ evs') s = run evs' (run evs s)"
  by (simp add: run_def)

theorem rejected_build_witness:
  "reachable (run exBuilding initial)
   \<and> promises (run exBuilding initial) ! 0 = Pending
   \<and> run (exRejected @ exAfterwards) initial =
       \<lparr>fetching = True, lastFetch = Some 1000, children = Some 0,
        promises = [Rejected serverError], awaiting = [], fired = 0\<rparr>"
proof -
  let ?s = "run exBuilding initial"
  have r: "reachable ?s" by (intro reachable_run reachable_initial)
  have p: "0 < length (promises ?s)" "promises ?s ! 0 = Pending"
    by (simp_all add: run_exBuilding)
  have "run exAfterwards (settle 0 (Inl serverError) ?s) = settle 0 (Inl serverError) ?s"
    using rejected_build_blocks_refresh [OF r p] by blast
  moreover have "run (exRejected @ exAfterwards) initial =
      run exAfterwards (settle 0 (Inl serverError) ?s)"
    by (simp add: run_append exRejected_def exBuilding_def)
  moreover have "settle 0 (Inl serverError) ?s =
      \<lparr>fetching = True, lastFetch = Some 1000, children = Some 0,
        promises = [Rejected serverError], awaiting = [], fired = 0\<rparr>"
    by (simp add: run_exBuilding settle_def)
  ultimately show ?thesis using r p by simp
qed

subsection \<open>The remote resolver\<close>

lemma isLineTerminator_isSpace: "isLineTerminator c \<Longrightarrow> isSpace c"
  by (auto simp: isLineTerminator_def isSpace_def)

lemma takeWhile_append_stop:
  "dropWhile P xs \<noteq> [] \<Longrightarrow> takeWhile P (xs @ ys) = takeWhile P xs"
  by (induction xs) auto

lemma dropWhile_append_stop:
  "dropWhile P xs \<noteq> [] \<Longrightarrow> dropWhile P (xs @ ys) = dropWhile P xs @ ys"
  by (induction xs) auto

lemma takeWhile_append_all:
  "dropWhile P xs = [] \<Longrightarrow> takeWhile P (xs @ ys) = xs @ takeWhile P ys"
  by (induction xs) (auto split: if_splits)

lemma dropWhile_append_all:
  "dropWhile P xs = [] \<Longrightarrow> dropWhile P (xs @ ys) = dropWhile P ys"
  by (induction xs) (auto split: if_splits)

lemma allMatches_skip:
  "\<forall>c\<in>set xs. \<not> isLineTerminator c \<Longrightarrow> allMatches False (xs @ rest) = allMatches False rest"
  by (induction xs) auto

lemma allMatches_next_line:
  "rest = [] \<or> isLineTerminator (hd rest) \<Longrightarrow>
   allMatches False rest = (case rest of [] \<Rightarrow> [] | lt # rest' \<Rightarrow> allMatches True rest')"
  by (cases rest) auto

lemma matchLine_space: "isSpace c \<Longrightarrow> matchLine (c # cs) = None"
  by (simp add: matchLine_def)

lemma tokens_Nil: "dropWhile isSpace l = [] \<Longrightarrow> tokens l = []"
  by (simp only: tokens.simps [of l] list.case)

lemma tokens_Cons:
  "dropWhile isSpace l = c # r \<Longrightarrow>
   tokens l = takeWhile nonSpace (c # r) # tokens (dropWhile nonSpace r)"
  by (simp only: tokens.simps [of l] list.case)

lemma tokens_Nil_iff: "tokens l = [] \<longleftrightarrow> (\<forall>c\<in>set l. isSpace c)"
proof (cases "dropWhile isSpace l")
  case Nil
  then show ?thesis using tokens_Nil [OF Nil] by (simp add: dropWhile_eq_Nil_conv)
next
  case (Cons c r)
  then have "\<not> (\<forall>c\<in>set l. isSpace c)"
    by (metis dropWhile_eq_Nil_conv list.distinct(1))
  then show ?thesis using tokens_Cons [OF Cons] by simp
qed

lemma allMatches_blank_line:
  assumes "tokens l = []" "\<forall>c\<in>set l. \<not> isLineTerminator c" "rest = [] \<or> isLineTerminator (hd rest)"
  shows "allMatches True (l @ rest) = (case rest of [] \<Rightarrow> [] | lt # rest' \<Rightarrow> allMatches True rest')"
proof (cases l)
  case Nil
  show ?thesis
  proof (cases rest)
    case Nil
    with \<open>l = []\<close> show ?thesis by simp
  next
    case (Cons lt rest')
    with assms(3) have "isLineTerminator lt" by simp
    with Cons \<open>l = []\<close> show ?thesis
      by (simp add: matchLine_space isLineTerminator_isSpace)
  qed
next
  case (Cons c l')
  with assms(1) have "isSpace c" by (simp add: tokens_Nil_iff)
  moreover from Cons assms(2) have "\<not> isLineTerminator c" "\<forall>c\<in>set l'. \<not> isLineTerminator c"
    by simp_all
  ultimately have "allMatches True (l @ rest) = allMatches False rest"
    using Cons by (simp add: matchLine_space allMatches_skip)
  with allMatches_next_line [OF assms(3)] show ?thesis by simp
qed

lemma matchLine_line:
  assumes l: "l \<noteq> []" "nonSpace (hd l)" and t: "tokens l = t1 # t2 # ts"
      and rest: "rest = [] \<or> isSpace (hd rest)"
  shows "matchLine (l @ rest) =
           Some (t2, dropWhile nonSpace (dropWhile isSpace (dropWhile nonSpace l)) @ rest)"
proof -
  from l obtain c r where lc: "l = c # r" and c: "nonSpace c" by (cases l) auto
  let ?r1 = "dropWhile nonSpace r"
  let ?r2 = "dropWhile isSpace ?r1"
  let ?r3 = "dropWhile nonSpace ?r2"
  have dl: "dropWhile isSpace l = c # r" using lc c by simp
  have e1: "dropWhile nonSpace (c # r) = ?r1" using c by simp
  have tl: "tokens l = takeWhile nonSpace (c # r) # tokens ?r1"
    using dl by (rule tokens_Cons)
  with t have t': "tokens ?r1 = t2 # ts" by simp
  have r2_ne: "?r2 \<noteq> []"
  proof
    assume "?r2 = []"
    then have "tokens ?r1 = []" by (rule tokens_Nil)
    with t' show False by simp
  qed
  then obtain c2 r2' where r2: "?r2 = c2 # r2'" by (meson list.exhaust)
  have "tokens ?r1 = takeWhile nonSpace (c2 # r2') # tokens (dropWhile nonSpace r2')"
    using r2 by (rule tokens_Cons)
  with t' have t2: "t2 = takeWhile nonSpace ?r2" by (simp only: r2 list.inject)
  have r1_ne: "?r1 \<noteq> []"
  proof
    assume "?r1 = []"
    then have "?r2 = []" by (simp only: dropWhile.simps)
    with r2_ne show False by blast
  qed
  have "nonSpace (hd ?r2)" using r2_ne by (rule hd_dropWhile)
  then have "nonSpace c2" unfolding r2 by simp
  then have "takeWhile nonSpace (c2 # r2') \<noteq> []" by simp
  then have t2_ne: "t2 \<noteq> []" unfolding t2 r2 .
  have name: "takeWhile nonSpace (c # r @ rest) = c # takeWhile nonSpace r"
    using c takeWhile_append_stop [OF r1_ne, of rest] by simp
  have dr1: "dropWhile nonSpace (c # r @ rest) = ?r1 @ rest"
    using c dropWhile_append_stop [OF r1_ne, of rest] by simp
  have sp: "takeWhile isSpace (?r1 @ rest) = takeWhile isSpace ?r1"
    using r2_ne by (rule takeWhile_append_stop)
  have "\<not> nonSpace (hd ?r1)" using r1_ne by (rule hd_dropWhile)
  then have sp_ne: "takeWhile isSpace ?r1 \<noteq> []"
  proof -
    assume h: "\<not> nonSpace (hd ?r1)"
    from r1_ne obtain c1 r1' where e: "?r1 = c1 # r1'" by (meson list.exhaust)
    from h have "isSpace c1" unfolding e by simp
    then have "takeWhile isSpace (c1 # r1') \<noteq> []" by simp
    then show ?thesis unfolding e .
  qed
  have dr2: "dropWhile isSpace (?r1 @ rest) = ?r2 @ rest"
    using r2_ne by (rule dropWhile_append_stop)
  have rest_tw: "takeWhile nonSpace rest = []" and rest_dw: "dropWhile nonSpace rest = rest"
    using rest by (cases rest; simp)+
  have u1: "takeWhile nonSpace (?r2 @ rest) = t2"
  proof (cases "?r3 = []")
    case True
    have "takeWhile nonSpace ?r2 @ dropWhile nonSpace ?r2 = ?r2"
      by (rule takeWhile_dropWhile_id)
    then have "takeWhile nonSpace ?r2 @ [] = ?r2" by (simp only: True)
    then have full: "?r2 = takeWhile nonSpace ?r2" by (simp only: append_Nil2)
    have "takeWhile nonSpace (?r2 @ rest) = ?r2 @ takeWhile nonSpace rest"
      using True by (rule takeWhile_append_all)
    also have "\<dots> = ?r2 @ []" by (simp only: rest_tw)
    also have "\<dots> = ?r2" by (rule append_Nil2)
    also have "\<dots> = takeWhile nonSpace ?r2" by (rule full)
    also have "\<dots> = t2" by (rule t2 [symmetric])
    finally show ?thesis .
  next
    case False
    have "takeWhile nonSpace (?r2 @ rest) = takeWhile nonSpace ?r2"
      using False by (rule takeWhile_append_stop)
    also have "\<dots> = t2" by (rule t2 [symmetric])
    finally show ?thesis .
  qed
  have u2: "dropWhile nonSpace (?r2 @ rest) = ?r3 @ rest"
  proof (cases "?r3 = []")
    case True
    have "dropWhile nonSpace (?r2 @ rest) = dropWhile nonSpace rest"
      using True by (rule dropWhile_append_all)
    also have "\<dots> = rest" by (rule rest_dw)
    also have "\<dots> = [] @ rest" by (rule append_Nil [symmetric])
    also have "\<dots> = ?r3 @ rest" by (simp only: True)
    finally show ?thesis .
  next
    case False
    then show ?thesis by (rule dropWhile_append_stop)
  qed
  have "matchLine (c # r @ rest) = Some (t2, ?r3 @ rest)"
    unfolding matchLine_def Let_def name dr1 sp dr2 u1 u2
    by (simp only: sp_ne t2_ne list.distinct simp_thms if_True)
  then show ?thesis
    unfolding lc e1 by (simp only: append_Cons)
qed


lemma secondToken_blank: "tokens l = [] \<Longrightarrow> secondToken l = []"
  by (simp add: secondToken_def)

lemma secondToken_two: "tokens l = t1 # t2 # ts \<Longrightarrow> secondToken l = [t2]"
  by (simp add: secondToken_def)

lemma allMatches_line:
  assumes ok: "remoteLine l" and noLT: "\<forall>c\<in>set l. \<not> isLineTerminator c"
      and rest: "rest = [] \<or> isLineTerminator (hd rest)"
  shows "allMatches True (l @ rest) =
           secondToken l @ (case rest of [] \<Rightarrow> [] | lt # rest' \<Rightarrow> allMatches True rest')"
proof (cases "tokens l = []")
  case True
  from allMatches_blank_line [OF True noLT rest] secondToken_blank [OF True]
  show ?thesis by (simp only: append_Nil)
next
  case False
  with ok have l: "l \<noteq> []" "nonSpace (hd l)" and len: "2 \<le> length (tokens l)"
    unfolding remoteLine_def by blast+
  from len obtain t1 t2 ts where t: "tokens l = t1 # t2 # ts"
    by (cases "tokens l"; cases "tl (tokens l)"; simp)
  from l obtain c r where lc: "l = c # r" by (cases l) auto
  let ?r3 = "dropWhile nonSpace (dropWhile isSpace (dropWhile nonSpace l))"
  from rest have rest': "rest = [] \<or> isSpace (hd rest)"
    using isLineTerminator_isSpace by blast
  have ml: "matchLine (c # r @ rest) = Some (t2, ?r3 @ rest)"
    using matchLine_line [OF l t rest'] unfolding lc by (simp only: append_Cons)
  have "set ?r3 \<subseteq> set l"
    by (meson set_dropWhileD subsetI)
  with noLT have noLT3: "\<forall>c\<in>set ?r3. \<not> isLineTerminator c" by blast
  have "allMatches True (c # r @ rest) = t2 # allMatches False (?r3 @ rest)"
    by (simp only: allMatches.simps if_True ml option.case prod.case)
  also have "allMatches False (?r3 @ rest) = allMatches False rest"
    using noLT3 by (rule allMatches_skip)
  also have "allMatches False rest =
      (case rest of [] \<Rightarrow> [] | lt # rest' \<Rightarrow> allMatches True rest')"
    using rest by (rule allMatches_next_line)
  finally have "allMatches True (c # r @ rest) =
      t2 # (case rest of [] \<Rightarrow> [] | lt # rest' \<Rightarrow> allMatches True rest')" .
  moreover have "secondToken (c # r) = [t2]"
    using secondToken_two [OF t] unfolding lc .
  ultimately show ?thesis
    unfolding lc by (simp only: append_Cons append_Nil)
qed

lemma linesOf_last:
  "dropWhile (\<lambda>c. \<not> isLineTerminator c) cs = [] \<Longrightarrow>
   linesOf cs = [takeWhile (\<lambda>c. \<not> isLineTerminator c) cs]"
  by (simp only: linesOf.simps [of cs] list.case)

lemma linesOf_more:
  "dropWhile (\<lambda>c. \<not> isLineTerminator c) cs = lt # rest \<Longrightarrow>
   linesOf cs = takeWhile (\<lambda>c. \<not> isLineTerminator c) cs # linesOf rest"
  by (simp only: linesOf.simps [of cs] list.case)

lemma allMatches_secondTokens:
  "remoteListing out \<Longrightarrow> allMatches True out = secondTokens out"
proof (induction out rule: linesOf.induct)
  case (1 cs)
  let ?l = "takeWhile (\<lambda>c. \<not> isLineTerminator c) cs"
  let ?d = "dropWhile (\<lambda>c. \<not> isLineTerminator c) cs"
  have split: "?l @ ?d = cs" by (rule takeWhile_dropWhile_id)
  have noLT: "\<forall>c\<in>set ?l. \<not> isLineTerminator c"
    using set_takeWhileD [of _ "\<lambda>c. \<not> isLineTerminator c" cs] by blast
  show ?case
  proof (cases ?d)
    case Nil
    then have lines: "linesOf cs = [?l]" by (rule linesOf_last)
    with "1.prems" have ok: "remoteLine ?l"
      by (simp add: remoteListing_def)
    have p: "[] = [] \<or> isLineTerminator (hd [])" by simp
    have "allMatches True (?l @ []) = secondToken ?l @ []"
      using allMatches_line [OF ok noLT p] by (simp only: list.case)
    moreover have "?l @ [] = cs" using split unfolding Nil .
    ultimately have "allMatches True cs = secondToken ?l @ []" by (simp only:)
    then show ?thesis
      unfolding secondTokens_def lines by (simp only: list.map concat.simps)
  next
    case (Cons lt rest)
    then have lines: "linesOf cs = ?l # linesOf rest" by (rule linesOf_more)
    with "1.prems" have ok: "remoteLine ?l" and okr: "remoteListing rest"
      by (simp_all add: remoteListing_def)
    have "?d \<noteq> []" using Cons by simp
    then have "\<not> \<not> isLineTerminator (hd ?d)" by (rule hd_dropWhile)
    then have lt: "isLineTerminator lt" unfolding Cons by simp
    have ih: "allMatches True rest = secondTokens rest"
      using "1.IH" [OF Cons okr] .
    have p: "lt # rest = [] \<or> isLineTerminator (hd (lt # rest))" using lt by simp
    have "allMatches True (?l @ lt # rest) = secondToken ?l @ allMatches True rest"
      using allMatches_line [OF ok noLT p] by (simp only: list.case)
    moreover have "?l @ lt # rest = cs" using split unfolding Cons .
    ultimately have "allMatches True cs = secondToken ?l @ secondTokens rest"
      by (simp only: ih)
    then show ?thesis
      unfolding secondTokens_def lines by (simp only: list.map concat.simps)
  qed
qed

lemma remotesLoop_map_filter:
  "remotesLoop e us acc = acc @ List.map_filter (toRemote e) us"
  by (induction us arbitrary: acc) (simp_all add: List.map_filter_simps split: option.splits)

lemma tokens_nonSpace:
  "t \<in> set (tokens l) \<Longrightarrow> t \<noteq> [] \<and> (\<forall>c\<in>set t. nonSpace c)"
proof (induction l rule: tokens.induct)
  case (1 cs)
  show ?case
  proof (cases "dropWhile isSpace cs")
    case Nil
    with "1.prems" tokens_Nil [OF Nil] show ?thesis by simp
  next
    case (Cons c r)
    have "dropWhile isSpace cs \<noteq> []" using Cons by simp
    then have "\<not> isSpace (hd (dropWhile isSpace cs))" by (rule hd_dropWhile)
    then have c: "nonSpace c" unfolding Cons by simp
    from "1.prems" tokens_Cons [OF Cons]
    have "t = takeWhile nonSpace (c # r) \<or> t \<in> set (tokens (dropWhile nonSpace r))" by simp
    then show ?thesis
    proof
      assume t: "t = takeWhile nonSpace (c # r)"
      have "\<forall>x\<in>set (takeWhile nonSpace (c # r)). nonSpace x"
        using set_takeWhileD [of _ nonSpace "c # r"] by blast
      moreover have "takeWhile nonSpace (c # r) \<noteq> []" using c by simp
      ultimately show ?thesis unfolding t by blast
    next
      assume "t \<in> set (tokens (dropWhile nonSpace r))"
      then show ?thesis by (rule "1.IH" [OF Cons])
    qed
  qed
qed

lemma secondTokens_nonSpace:
  assumes "u \<in> set (secondTokens out)"
  shows "\<forall>c\<in>set u. nonSpace c"
proof -
  from assms obtain l where "u \<in> set (secondToken l)"
    by (auto simp: secondTokens_def)
  then have "u \<in> set (tokens l)"
    by (cases "tokens l"; cases "tl (tokens l)"; simp add: secondToken_def)
  then show ?thesis using tokens_nonSpace by blast
qed


lemma takeWhile_all: "\<forall>x\<in>set xs. P x \<Longrightarrow> takeWhile P xs = xs"
  by (induction xs) auto

lemma matchAfterHost_sound:
  assumes "matchAfterHost cs = Some (ow, rp, m)"
  shows "ow \<noteq> [] \<and> CHR ''/'' \<notin> set ow \<and> rp \<noteq> [] \<and> CHR '' '' \<notin> set rp \<and> CHR ''.'' \<notin> set rp
       \<and> (\<exists>d. cs = ow @ ''/'' @ rp @ d \<and> (d = [] \<or> hd d = CHR ''.'' \<or> hd d = CHR '' '')
              \<and> m = ow @ ''/'' @ rp @ takeWhile nonSpace d)"
proof -
  let ?P = "\<lambda>c. c \<noteq> CHR ''/''"
  let ?Q = "\<lambda>c. c \<noteq> CHR '' '' \<and> c \<noteq> CHR ''.''"
  from assms obtain slash r where dr: "dropWhile ?P cs = slash # r"
    by (cases "dropWhile ?P cs") (simp_all add: matchAfterHost_def)
  from assms dr have ow: "ow = takeWhile ?P cs" and ow_ne: "ow \<noteq> []"
    and rp: "rp = takeWhile ?Q r" and rp_ne: "rp \<noteq> []"
    and m: "m = ow @ [slash] @ rp @ takeWhile nonSpace (dropWhile ?Q r)"
    by (auto simp: matchAfterHost_def Let_def split: if_splits)
  have "dropWhile ?P cs \<noteq> []" using dr by simp
  then have "\<not> ?P (hd (dropWhile ?P cs))" by (rule hd_dropWhile)
  then have slash: "slash = CHR ''/''" unfolding dr by simp
  have no_slash: "CHR ''/'' \<notin> set ow"
    unfolding ow using set_takeWhileD [of "CHR ''/''" ?P cs] by blast
  have no_sd: "CHR '' '' \<notin> set rp \<and> CHR ''.'' \<notin> set rp"
    unfolding rp using set_takeWhileD [of _ ?Q r] by blast
  have "takeWhile ?P cs @ dropWhile ?P cs = cs" by (rule takeWhile_dropWhile_id)
  moreover have "takeWhile ?Q r @ dropWhile ?Q r = r" by (rule takeWhile_dropWhile_id)
  ultimately have cs: "cs = ow @ ''/'' @ rp @ dropWhile ?Q r"
    unfolding dr ow rp slash by simp
  have d: "dropWhile ?Q r = [] \<or> hd (dropWhile ?Q r) = CHR ''.'' \<or> hd (dropWhile ?Q r) = CHR '' ''"
    using hd_dropWhile [of ?Q r] by blast
  from ow_ne no_slash rp_ne no_sd cs d m slash show ?thesis by auto
qed


lemma host_split:
  assumes "take 11 (drop k cs) = ''github.com/''"
  shows "cs = take k cs @ ''github.com/'' @ drop (k + 11) cs"
proof -
  have "drop k cs = take 11 (drop k cs) @ drop 11 (drop k cs)"
    by (rule append_take_drop_id [symmetric])
  then have "drop k cs = ''github.com/'' @ drop (k + 11) cs"
    unfolding assms by (simp add: add.commute)
  moreover have "cs = take k cs @ drop k cs"
    by (rule append_take_drop_id [symmetric])
  ultimately show ?thesis by metis
qed

lemma matchWithPrefix_sound:
  assumes "matchWithPrefix cs k = Some (m1, ow, rp)"
  shows "gitHubUrl cs ow rp \<and> ((\<forall>c\<in>set cs. nonSpace c) \<longrightarrow> m1 = cs)"
proof -
  from assms have host: "take 11 (drop k cs) = ''github.com/''"
    by (simp add: matchWithPrefix_def split: if_splits)
  with assms obtain m where mah: "matchAfterHost (drop (k + 11) cs) = Some (ow, rp, m)"
    and m1: "m1 = take k cs @ ''github.com/'' @ m"
    by (auto simp: matchWithPrefix_def split: option.splits)
  from matchAfterHost_sound [OF mah] obtain d where
    p: "ow \<noteq> []" "CHR ''/'' \<notin> set ow" "rp \<noteq> []" "CHR '' '' \<notin> set rp" "CHR ''.'' \<notin> set rp"
    and d: "drop (k + 11) cs = ow @ ''/'' @ rp @ d"
      "d = [] \<or> hd d = CHR ''.'' \<or> hd d = CHR '' ''"
    and m: "m = ow @ ''/'' @ rp @ takeWhile nonSpace d"
    by blast
  have cs: "cs = take k cs @ ''github.com/'' @ ow @ ''/'' @ rp @ d"
    using host_split [OF host] unfolding d(1) .
  have "\<exists>pre tl. cs = pre @ ''github.com/'' @ ow @ ''/'' @ rp @ tl
      \<and> (tl = [] \<or> hd tl = CHR ''.'' \<or> hd tl = CHR '' '')"
    using cs d(2) by (intro exI [of _ "take k cs"] exI [of _ d] conjI)
  with p have g: "gitHubUrl cs ow rp"
    unfolding gitHubUrl_def by (intro conjI)
  have "m1 = cs" if ns: "\<forall>c\<in>set cs. nonSpace c"
  proof -
    have "set d \<subseteq> set (drop (k + 11) cs)" unfolding d(1) by auto
    moreover have "set (drop (k + 11) cs) \<subseteq> set cs" by (rule set_drop_subset)
    ultimately have "\<forall>c\<in>set d. nonSpace c" using ns by blast
    then have "takeWhile nonSpace d = d"
      by (rule takeWhile_all)
    then have "m = drop (k + 11) cs" unfolding m d(1) by simp
    then show ?thesis unfolding m1 using host_split [OF host, symmetric] by simp
  qed
  with g show ?thesis by blast
qed

lemma matchFrom_Some: "matchFrom cs n = Some r \<Longrightarrow> \<exists>k\<le>n. matchWithPrefix cs k = Some r"
proof (induction n)
  case 0
  then show ?case by simp
next
  case (Suc n)
  show ?case
  proof (cases "matchWithPrefix cs (Suc n)")
    case None
    with Suc.prems have "matchFrom cs n = Some r" by simp
    from Suc.IH [OF this] show ?thesis using le_Suc_eq by blast
  next
    case (Some m)
    with Suc.prems have "m = r" by simp
    with Some show ?thesis by blast
  qed
qed

lemma matchFrom_None: "matchFrom cs n = None \<Longrightarrow> k \<le> n \<Longrightarrow> matchWithPrefix cs k = None"
proof (induction n)
  case 0
  then show ?case by simp
next
  case (Suc n)
  from Suc.prems(1) have a: "matchWithPrefix cs (Suc n) = None" and b: "matchFrom cs n = None"
    by (simp_all split: option.splits)
  show ?case
  proof (cases "k = Suc n")
    case True
    with a show ?thesis by simp
  next
    case False
    with Suc.prems(2) have "k \<le> n" by simp
    with Suc.IH [OF b] show ?thesis by simp
  qed
qed

lemma matchWithPrefix_Cons:
  "matchWithPrefix cs k = Some (m1, ow, rp) \<Longrightarrow>
   matchWithPrefix (c # cs) (Suc k) = Some (c # m1, ow, rp)"
proof -
  assume a: "matchWithPrefix cs k = Some (m1, ow, rp)"
  have "matchWithPrefix (c # cs) (Suc k) =
      map_option (\<lambda>(m, x, y). (c # m, x, y)) (matchWithPrefix cs k)"
    unfolding matchWithPrefix_def
    by (simp only: add_Suc drop_Suc_Cons take_Suc_Cons)
       (simp split: option.splits)
  with a show ?thesis by simp
qed

lemma execGitHub_nonSpace:
  "\<forall>c\<in>set cs. nonSpace c \<Longrightarrow> execGitHub cs = matchFrom cs (length cs)"
proof (induction cs)
  case Nil
  show ?case by (simp only: execGitHub.simps list.size)
next
  case (Cons c cs)
  from Cons.prems have ns: "\<forall>x\<in>set cs. nonSpace x" by simp
  have ih: "execGitHub cs = matchFrom cs (length cs)"
    using ns by (rule Cons.IH)
  from Cons.prems have "takeWhile nonSpace (c # cs) = c # cs"
    by (rule takeWhile_all)
  then have len: "length (takeWhile nonSpace (c # cs)) = Suc (length cs)"
    by simp
  have l2: "length (c # cs) = Suc (length cs)" by simp
  have unfold: "execGitHub (c # cs) =
      (case matchFrom (c # cs) (Suc (length cs)) of Some m \<Rightarrow> Some m | None \<Rightarrow> execGitHub cs)"
    by (simp only: execGitHub.simps len)
  show ?case
  proof (cases "matchFrom (c # cs) (Suc (length cs))")
    case (Some m)
    show ?thesis
      unfolding unfold l2 Some by (simp only: option.case)
  next
    case None
    have "matchFrom cs (length cs) = None"
    proof (rule ccontr)
      assume "matchFrom cs (length cs) \<noteq> None"
      then obtain m1 ow rp where "matchFrom cs (length cs) = Some (m1, ow, rp)"
        by (cases "matchFrom cs (length cs)") auto
      from matchFrom_Some [OF this] obtain k where k: "k \<le> length cs"
        and "matchWithPrefix cs k = Some (m1, ow, rp)" by blast
      from matchWithPrefix_Cons [OF this(2), of c]
      have some: "matchWithPrefix (c # cs) (Suc k) = Some (c # m1, ow, rp)" .
      from k have "Suc k \<le> Suc (length cs)" by (rule Suc_le_mono [THEN iffD2])
      with None have "matchWithPrefix (c # cs) (Suc k) = None" by (rule matchFrom_None)
      with some show False by (simp only: option.distinct)
    qed
    then have "execGitHub cs = None" by (simp only: ih)
    then show ?thesis
      unfolding unfold l2 None by (simp only: option.case)
  qed
qed

lemma execGitHub_sound:
  assumes "\<forall>c\<in>set u. nonSpace c" and "execGitHub u = Some (m1, ow, rp)"
  shows "m1 = u \<and> gitHubUrl u ow rp"
proof -
  from assms have "matchFrom u (length u) = Some (m1, ow, rp)"
    using execGitHub_nonSpace [of u] by (simp only:)
  from matchFrom_Some [OF this] obtain k where "matchWithPrefix u k = Some (m1, ow, rp)"
    by blast
  from matchWithPrefix_sound [OF this] assms(1) show ?thesis by blast
qed


lemma matchAfterHost_complete:
  assumes "ow \<noteq> []" "CHR ''/'' \<notin> set ow" "rp \<noteq> []" "CHR '' '' \<notin> set rp" "CHR ''.'' \<notin> set rp"
  shows "matchAfterHost (ow @ ''/'' @ rp @ sfx) \<noteq> None"
proof -
  let ?P = "\<lambda>c. c \<noteq> CHR ''/''"
  let ?Q = "\<lambda>c. c \<noteq> CHR '' '' \<and> c \<noteq> CHR ''.''"
  have P: "\<And>x. x \<in> set ow \<Longrightarrow> ?P x" using assms(2) by blast
  have Q: "\<And>x. x \<in> set rp \<Longrightarrow> ?Q x" using assms(4,5) by blast
  have t: "takeWhile ?P (ow @ ''/'' @ rp @ sfx) = ow"
    using takeWhile_append2 [of ow ?P "''/'' @ rp @ sfx", OF P] by simp
  have d: "dropWhile ?P (ow @ ''/'' @ rp @ sfx) = CHR ''/'' # rp @ sfx"
    using dropWhile_append2 [of ow ?P "''/'' @ rp @ sfx", OF P] by simp
  have "takeWhile ?Q (rp @ sfx) = rp @ takeWhile ?Q sfx"
    using takeWhile_append2 [of rp ?Q sfx, OF Q] by simp
  with assms(3) have r: "takeWhile ?Q (rp @ sfx) \<noteq> []" by simp
  show ?thesis
    unfolding matchAfterHost_def Let_def t d using assms(1) r by simp
qed

lemma matchWithPrefix_complete:
  assumes "gitHubUrl u ow rp"
  shows "\<exists>k\<le>length u. matchWithPrefix u k \<noteq> None"
proof -
  from assms obtain pre sfx where u: "u = pre @ ''github.com/'' @ ow @ ''/'' @ rp @ sfx"
    and p: "ow \<noteq> []" "CHR ''/'' \<notin> set ow" "rp \<noteq> []" "CHR '' '' \<notin> set rp" "CHR ''.'' \<notin> set rp"
    unfolding gitHubUrl_def by blast
  have h: "take 11 (drop (length pre) u) = ''github.com/''"
    unfolding u by simp
  have r: "drop (length pre + 11) u = ow @ ''/'' @ rp @ sfx"
    unfolding u by simp
  have "matchWithPrefix u (length pre) \<noteq> None"
    unfolding matchWithPrefix_def h r
    using matchAfterHost_complete [OF p, of sfx] by (auto split: option.splits)
  moreover have "length pre \<le> length u" unfolding u by simp
  ultimately show ?thesis by blast
qed

lemma execGitHub_complete:
  assumes ns: "\<forall>c\<in>set u. nonSpace c" and g: "gitHubUrl u ow rp"
  shows "execGitHub u \<noteq> None"
proof
  assume "execGitHub u = None"
  then have n: "matchFrom u (length u) = None"
    using execGitHub_nonSpace [OF ns] by (simp only:)
  from matchWithPrefix_complete [OF g] obtain k where k: "k \<le> length u"
    and s: "matchWithPrefix u k \<noteq> None" by blast
  from n k have "matchWithPrefix u k = None" by (rule matchFrom_None)
  with s show False by blast
qed

lemma toRemote_Some:
  assumes ns: "\<forall>c\<in>set u. nonSpace c" and r: "toRemote e u = Some remote"
  shows "url remote = u \<and> gitHubUrl u (owner remote) (repo remote)
         \<and> fill e u = Some (username remote)"
proof -
  from r obtain m1 ow rp where x: "execGitHub u = Some (m1, ow, rp)"
    by (cases "execGitHub u") (auto simp: toRemote_def)
  from execGitHub_sound [OF ns x] have m1: "m1 = u" and g: "gitHubUrl u ow rp" by blast+
  from r x m1 obtain user where f: "fill e u = Some user"
    and remote: "remote = \<lparr>url = u, owner = ow, repo = rp, username = user\<rparr>"
    by (cases "fill e u") (auto simp: toRemote_def)
  from g f show ?thesis unfolding remote by simp
qed

lemma toRemote_None_iff:
  assumes ns: "\<forall>c\<in>set u. nonSpace c"
  shows "(toRemote e u \<noteq> None) = ((\<exists>ow rp. gitHubUrl u ow rp) \<and> fill e u \<noteq> None)"
proof
  assume "toRemote e u \<noteq> None"
  then obtain remote where "toRemote e u = Some remote" by blast
  from toRemote_Some [OF ns this] show "(\<exists>ow rp. gitHubUrl u ow rp) \<and> fill e u \<noteq> None"
    by auto
next
  assume a: "(\<exists>ow rp. gitHubUrl u ow rp) \<and> fill e u \<noteq> None"
  then obtain ow rp where "gitHubUrl u ow rp" by blast
  from execGitHub_complete [OF ns this] obtain m1 ow' rp'
    where x: "execGitHub u = Some (m1, ow', rp')" by (cases "execGitHub u") auto
  from execGitHub_sound [OF ns x] have "m1 = u" by blast
  with x a show "toRemote e u \<noteq> None"
    by (auto simp: toRemote_def)
qed


lemma allMatches_exListing:
  "allMatches True exListing =
     [''https://github.com/acme/widgets.git'', ''https://github.com/acme/widgets.git'']"
  by code_simp

lemma secondTokens_exListing:
  "secondTokens exListing =
     [''https://github.com/acme/widgets.git'', ''https://github.com/acme/widgets.git'']"
  by code_simp

lemma remoteListing_exListing: "remoteListing exListing"
  by code_simp

lemma execGitHub_widgets:
  "execGitHub ''https://github.com/acme/widgets.git'' =
     Some (''https://github.com/acme/widgets.git'', ''acme'', ''widgets'')"
  by code_simp


lemma map_filter_conv:
  "List.map_filter f xs = map (\<lambda>x. the (f x)) (filter (\<lambda>x. f x \<noteq> None) xs)"
  by (simp add: List.map_filter_def comp_def)

lemma getGitHubRemotes_exListing:
  assumes "gitRemoteV x = Inr exListing"
      and "fill x ''https://github.com/acme/widgets.git'' = Some user"
  shows "getGitHubRemotes x =
           Inr [\<lparr>url = ''https://github.com/acme/widgets.git'', owner = ''acme'',
                 repo = ''widgets'', username = user\<rparr>]"
proof -
  have "toRemote x ''https://github.com/acme/widgets.git'' =
      Some \<lparr>url = ''https://github.com/acme/widgets.git'', owner = ''acme'',
                 repo = ''widgets'', username = user\<rparr>"
    unfolding toRemote_def execGitHub_widgets using assms(2) by simp
  then show ?thesis
    by (simp add: getGitHubRemotes_def assms(1) allMatches_exListing)
qed

text \<open>
  On an output in which every line is blank or starts with the name of the remote and has
  a second token, the resolver does what the spec says: the URLs are the second tokens of
  the lines; the remotes are those of the distinct URLs, in the order of their first
  appearance, that are of the GitHub pattern and for which the credential lookup returns
  data; the URL, the owner and the repository of a remote are those of its URL, the
  repository name stopping at a dot; and the fetch line and the push line of one URL give
  one remote.
\<close>

lemma getGitHubRemotes_resolves:
  assumes "gitRemoteV e = Inr out" and "remoteListing out"
  shows "allMatches True out = secondTokens out
       \<and> getGitHubRemotes e =
           Inr (map (\<lambda>u. the (toRemote e u))
                  (filter (\<lambda>u. toRemote e u \<noteq> None) (firstSeen (secondTokens out))))
       \<and> (\<forall>u\<in>set (secondTokens out).
            ((toRemote e u \<noteq> None) = ((\<exists>ow rp. gitHubUrl u ow rp) \<and> fill e u \<noteq> None))
            \<and> (\<forall>r. toRemote e u = Some r \<longrightarrow>
                  url r = u \<and> gitHubUrl u (owner r) (repo r) \<and> fill e u = Some (username r)))
       \<and> (\<forall>x user. gitRemoteV x = Inr exListing
              \<and> fill x ''https://github.com/acme/widgets.git'' = Some user \<longrightarrow>
            getGitHubRemotes x =
              Inr [\<lparr>url = ''https://github.com/acme/widgets.git'', owner = ''acme'',
                    repo = ''widgets'', username = user\<rparr>])"
proof (intro conjI ballI allI impI)
  show m: "allMatches True out = secondTokens out"
    using assms(2) by (rule allMatches_secondTokens)
  show "getGitHubRemotes e =
           Inr (map (\<lambda>u. the (toRemote e u))
                  (filter (\<lambda>u. toRemote e u \<noteq> None) (firstSeen (secondTokens out))))"
    by (simp add: getGitHubRemotes_def assms(1) m remotesLoop_map_filter map_filter_conv)
next
  fix u assume "u \<in> set (secondTokens out)"
  then have ns: "\<forall>c\<in>set u. nonSpace c" by (rule secondTokens_nonSpace)
  show "(toRemote e u \<noteq> None) = ((\<exists>ow rp. gitHubUrl u ow rp) \<and> fill e u \<noteq> None)"
    using ns by (rule toRemote_None_iff)
  fix r assume r: "toRemote e u = Some r"
  from toRemote_Some [OF ns r]
  show "url r = u" "gitHubUrl u (owner r) (repo r)" "fill e u = Some (username r)"
    by blast+
next
  fix x :: env and user
  assume "gitRemoteV x = Inr exListing
              \<and> fill x ''https://github.com/acme/widgets.git'' = Some user"
  then show "getGitHubRemotes x =
              Inr [\<lparr>url = ''https://github.com/acme/widgets.git'', owner = ''acme'',
                    repo = ''widgets'', username = user\<rparr>]"
    using getGitHubRemotes_exListing by blast
qed

lemma getGitHubRemotes_resolves_example:
  "gitRemoteV exListingEnv = Inr exListing
   \<and> remoteListing exListing
   \<and> secondTokens exListing =
        [''https://github.com/acme/widgets.git'', ''https://github.com/acme/widgets.git'']
   \<and> getGitHubRemotes exListingEnv =
        Inr [\<lparr>url = ''https://github.com/acme/widgets.git'', owner = ''acme'',
              repo = ''widgets'', username = ''octocat''\<rparr>]"
proof -
  have a: "gitRemoteV exListingEnv = Inr exListing"
    by (simp add: exListingEnv_def)
  have f: "fill exListingEnv ''https://github.com/acme/widgets.git'' = Some ''octocat''"
    by (simp add: exListingEnv_def exEnv_def)
  from getGitHubRemotes_resolves [OF a remoteListing_exListing] a f
  have "getGitHubRemotes exListingEnv =
        Inr [\<lparr>url = ''https://github.com/acme/widgets.git'', owner = ''acme'',
              repo = ''widgets'', username = ''octocat''\<rparr>]"
    by blast
  with a remoteListing_exListing secondTokens_exListing show ?thesis by blast
qed



end
